theory Spec2Isabelle
  imports Main "HOL-Library.Word" "HOL-Library.Sublist" "HOL-Library.Multiset"
begin

section \<open>Strings\<close>

text \<open>
  A JavaScript string is a sequence of UTF-16 code units; \<open>length\<close>, \<open>startsWith\<close>,
  \<open>slice\<close> and a regular expression without the \<open>u\<close> flag all work on code units.
  \<open>js\<close> embeds an ASCII literal.
\<close>

type_synonym jschar = "16 word"
type_synonym jstring = "jschar list"

definition js :: "string \<Rightarrow> jstring" where
  "js s = map (\<lambda>c. of_nat (of_char c)) s"

definition CHAR_FORWARD_SLASH :: jschar where
  "CHAR_FORWARD_SLASH = 47"

definition CHAR_DOT :: jschar where
  "CHAR_DOT = 46"

text \<open>\<open>s.slice(a, b)\<close> for \<open>0 \<le> a\<close> and \<open>0 \<le> b\<close>.\<close>

definition str_slice :: "jstring \<Rightarrow> nat \<Rightarrow> nat \<Rightarrow> jstring" where
  "str_slice s a b = take (b - a) (drop a s)"

section \<open>The path module\<close>

text \<open>
  \<open>syncName.ts\<close> imports Node's \<open>path\<close> module. \<open>path.parse\<close> and \<open>path.format\<close>
  decide what a \<open>ParsedFile\<close> is, so they are modelled here, in the POSIX flavour, after
  Node's \<open>lib/path.js\<close>: \<open>parse\<close> scans the string once from its end. The class
  \<open>ParsedFile\<close> stores the four fields \<open>root\<close>, \<open>dir\<close>, \<open>name\<close> and \<open>ext\<close> of the
  object \<open>path.parse\<close> returns (its fifth, \<open>base\<close>, is \<open>name + ext\<close>), so one record serves
  for both.
\<close>

record ParsedFile =
  root :: jstring
  dir :: jstring
  name :: jstring
  ext :: jstring

text \<open>
  The variables of the scan. \<open>startDot\<close> and \<open>end\<close> start at \<open>-1\<close>;
  \<open>preDotState\<close> is \<open>0\<close>, \<open>1\<close> or \<open>-1\<close>.
\<close>

record scan =
  startDot :: int
  startPart :: nat
  endPos :: int
  matchedSlash :: bool
  preDotState :: int

definition scan_init :: scan where
  "scan_init = \<lparr>startDot = -1, startPart = 0, endPos = -1, matchedSlash = True, preDotState = 0\<rparr>"

text \<open>
  One turn of \<open>for (; i >= start; --i)\<close> at a character that is not a separator.
\<close>

definition scan_char :: "jschar \<Rightarrow> nat \<Rightarrow> scan \<Rightarrow> scan" where
  "scan_char code i st =
     (let st1 = (if endPos st = -1 then st\<lparr>matchedSlash := False, endPos := int i + 1\<rparr> else st)
      in if code = CHAR_DOT then
           (if startDot st1 = -1 then st1\<lparr>startDot := int i\<rparr>
            else if preDotState st1 \<noteq> 1 then st1\<lparr>preDotState := 1\<rparr>
            else st1)
         else if startDot st1 \<noteq> -1 then st1\<lparr>preDotState := -1\<rparr>
         else st1)"

text \<open>
  The loop; the third argument is \<open>i + 1\<close>. A separator seen after a character of the
  last component sets \<open>startPart\<close> and leaves the loop.
\<close>

fun scan_back :: "jstring \<Rightarrow> nat \<Rightarrow> nat \<Rightarrow> scan \<Rightarrow> scan" where
  "scan_back path start 0 st = st"
| "scan_back path start (Suc i) st =
     (if i < start then st
      else if path ! i = CHAR_FORWARD_SLASH then
        (if \<not> matchedSlash st then st\<lparr>startPart := i + 1\<rparr>
         else scan_back path start i st)
      else scan_back path start i (scan_char (path ! i) i st))"

definition path_parse :: "jstring \<Rightarrow> ParsedFile" where
  "path_parse path =
     (if path = [] then \<lparr>root = [], dir = [], name = [], ext = []\<rparr>
      else
        let isAbsolute = (path ! 0 = CHAR_FORWARD_SLASH);
            start = (if isAbsolute then 1 else 0);
            st = scan_back path start (length path) scan_init;
            start' = (if startPart st = 0 \<and> isAbsolute then 1 else startPart st);
            whole = (startDot st = -1 \<or> preDotState st = 0 \<or>
                     (preDotState st = 1 \<and> startDot st = endPos st - 1 \<and>
                      startDot st = int (startPart st) + 1))
        in \<lparr>root = (if isAbsolute then [CHAR_FORWARD_SLASH] else []),
            dir = (if startPart st > 0 then str_slice path 0 (startPart st - 1)
                   else if isAbsolute then [CHAR_FORWARD_SLASH] else []),
            name = (if endPos st = -1 then []
                    else if whole then str_slice path start' (nat (endPos st))
                    else str_slice path start' (nat (startDot st))),
            ext = (if endPos st = -1 \<or> whole then []
                   else str_slice path (nat (startDot st)) (nat (endPos st)))\<rparr>)"

text \<open>
  \<open>path.format\<close> reads \<open>dir\<close>, \<open>root\<close> and \<open>base\<close>; the \<open>base\<close> of a \<open>ParsedFile\<close> is its
  getter, \<open>name + ext\<close>.
\<close>

definition path_format :: "ParsedFile \<Rightarrow> jstring" where
  "path_format p =
     (let d = (if dir p \<noteq> [] then dir p else root p);
          b = name p @ ext p
      in if d = [] then b
         else if d = root p then d @ b
         else d @ CHAR_FORWARD_SLASH # b)"

section \<open>The host: path arithmetic and the file system as the program reads it\<close>

text \<open>
  The rest of what the program imports is a parameter of the model:
  \<^item> \<open>path.join\<close> and \<open>path.relative\<close>, which only ever compute a \<open>dir\<close> field or a
    directory to list;
  \<^item> \<open>fs.readdirSync(d, {withFileTypes: true})\<close>, \<open>None\<close> when it throws;
  \<^item> \<open>fs.existsSync\<close>;
  \<^item> \<open>klawSync(root, {nofile: true})\<close>, as the list of the \<open>path\<close>s of its items.
  Renames, copies, \<open>mkdirSync\<close> and the progress callback are recorded in the order
  they are called, not applied: \<open>renameFile\<close> and \<open>copyFile\<close> are \<open>let\<close> bindings that
  \<open>main\<close> replaces for a dry run, and every directory is listed before the first call
  that changes it.
\<close>

record dirent =
  d_name :: jstring
  d_isFile :: bool

record host =
  path_join :: "jstring \<Rightarrow> jstring \<Rightarrow> jstring"
  path_relative :: "jstring \<Rightarrow> jstring \<Rightarrow> jstring"
  readdirSync :: "jstring \<Rightarrow> dirent list option"
  existsSync :: "jstring \<Rightarrow> bool"
  klawSync :: "jstring \<Rightarrow> jstring list"

datatype fs_error = ReaddirThrew jstring

section \<open>File types and operations\<close>

text \<open>The constructor of \<open>ParsedFile\<close>.\<close>

definition new_ParsedFile :: "jstring \<Rightarrow> ParsedFile" where
  "new_ParsedFile p = path_parse p"

definition base :: "ParsedFile \<Rightarrow> jstring" where
  "base f = name f @ ext f"

definition fullPath :: "ParsedFile \<Rightarrow> jstring" where
  "fullPath f = path_format f"

definition withName :: "ParsedFile \<Rightarrow> jstring \<Rightarrow> ParsedFile" where
  "withName f n = (new_ParsedFile (fullPath f))\<lparr>name := n\<rparr>"

text \<open>
  \<open>withParentDirectory\<close> and \<open>relativeTo\<close> take the new \<open>dir\<close> from \<open>this.dir\<close>, the
  receiver's field, not from the copy they have just parsed.
\<close>

definition withParentDirectory :: "host \<Rightarrow> ParsedFile \<Rightarrow> jstring \<Rightarrow> ParsedFile" where
  "withParentDirectory H f d = (new_ParsedFile (fullPath f))\<lparr>dir := path_join H d (dir f)\<rparr>"

definition relativeTo :: "host \<Rightarrow> ParsedFile \<Rightarrow> jstring \<Rightarrow> ParsedFile" where
  "relativeTo H f d = (new_ParsedFile (fullPath f))\<lparr>dir := path_relative H d (dir f)\<rparr>"

definition equal :: "ParsedFile \<Rightarrow> ParsedFile \<Rightarrow> bool" where
  "equal f g = (fullPath f = fullPath g)"

text \<open>What reaches the file system.\<close>

datatype fs_op =
  RenameSync jstring jstring
  | CopyFileSync jstring jstring
  | MkdirSync jstring

definition renameFile :: "ParsedFile \<Rightarrow> jstring \<Rightarrow> fs_op list" where
  "renameFile file newName =
     (if name file \<noteq> newName
      then [RenameSync (fullPath file) (fullPath (withName file newName))]
      else [])"

definition copyFile :: "ParsedFile \<Rightarrow> ParsedFile \<Rightarrow> fs_op list" where
  "copyFile sourceFile targetFile = [CopyFileSync (fullPath sourceFile) (fullPath targetFile)]"

text \<open>
  What the sync logic calls: the two replaceable bindings, \<open>fs.mkdirSync\<close> and the
  progress callback (when there is none, the \<open>OnProgress\<close> entries are no calls at all).
\<close>

datatype call =
  RenameFile ParsedFile jstring
  | CopyFile ParsedFile ParsedFile
  | Mkdir jstring
  | OnProgress jstring

fun perform :: "call \<Rightarrow> fs_op list" where
  "perform (RenameFile file newName) = renameFile file newName"
| "perform (CopyFile sourceFile targetFile) = copyFile sourceFile targetFile"
| "perform (Mkdir d) = [MkdirSync d]"
| "perform (OnProgress m) = []"

definition fs_ops :: "call list \<Rightarrow> fs_op list" where
  "fs_ops cs = concat (map perform cs)"

section \<open>Sync logic\<close>

text \<open>
  A \<open>Map\<close> whose keys are objects compares them by identity. Every key the program
  inserts is an object that is not yet a key (\<open>withParentDirectory\<close> allocates it; a
  candidate picked for \<open>toRename\<close> is \<open>equal\<close> to none of its keys, so it is none of
  them; \<open>toCopy\<close> gets the keys of \<open>collisions\<close>, each once), so \<open>set\<close> always adds an
  entry, and a \<open>Map\<close> is the list of its entries in insertion order, its iteration
  order. Two entries of the list with the same fields are two objects.
\<close>

type_synonym 'v file_map = "(ParsedFile \<times> 'v) list"

record SyncResults =
  resolved :: "ParsedFile list"
  collisions :: "ParsedFile list file_map"

type_synonym SyncPredicate = "ParsedFile \<Rightarrow> ParsedFile \<Rightarrow> bool"

definition listFiles :: "dirent list \<Rightarrow> ParsedFile list" where
  "listFiles ds =
     map (\<lambda>d. new_ParsedFile (d_name d))
       (filter (\<lambda>d. d_isFile d \<and> d_name d \<noteq> js ''.DS_Store'') ds)"

definition targetCandidates ::
  "host \<Rightarrow> jstring \<Rightarrow> SyncPredicate \<Rightarrow> ParsedFile list \<Rightarrow> ParsedFile list \<Rightarrow> ParsedFile \<Rightarrow>
   ParsedFile list" where
  "targetCandidates H targetDir areSyncable res targetFiles sourceFile =
     filter (\<lambda>candidate. List.find (\<lambda>file. equal file candidate) res = None)
       (map (\<lambda>candidate. withParentDirectory H candidate targetDir)
         (filter (\<lambda>candidate. areSyncable sourceFile candidate) targetFiles))"

text \<open>The body of \<open>sourceFiles.forEach\<close>: the results so far and the calls so far.\<close>

definition syncFile ::
  "host \<Rightarrow> jstring \<Rightarrow> jstring \<Rightarrow> SyncPredicate \<Rightarrow> ParsedFile list \<Rightarrow>
   SyncResults \<times> call list \<Rightarrow> ParsedFile \<Rightarrow> SyncResults \<times> call list" where
  "syncFile H sourceDir targetDir areSyncable targetFiles acc sourceFile =
     (let r = fst acc; cs = snd acc;
          cands = targetCandidates H targetDir areSyncable (resolved r) targetFiles sourceFile;
          progress = OnProgress (fullPath (withParentDirectory H sourceFile sourceDir))
      in if length cands = 1 then
           (r\<lparr>resolved := resolved r @ [cands ! 0]\<rparr>,
            cs @ [RenameFile (cands ! 0) (name sourceFile), progress])
         else if length cands > 1 then
           (r\<lparr>collisions := collisions r @ [(withParentDirectory H sourceFile sourceDir, cands)]\<rparr>,
            cs @ [progress])
         else
           (r, cs @ [CopyFile (withParentDirectory H sourceFile sourceDir)
                       (withParentDirectory H sourceFile targetDir), progress]))"

definition syncDir ::
  "host \<Rightarrow> jstring \<Rightarrow> jstring \<Rightarrow> SyncPredicate \<Rightarrow> SyncResults option \<Rightarrow>
   fs_error + SyncResults \<times> call list" where
  "syncDir H sourceDir targetDir areSyncable syncResults =
     (let r0 = (case syncResults of None \<Rightarrow> \<lparr>resolved = [], collisions = []\<rparr> | Some r \<Rightarrow> r)
      in case readdirSync H sourceDir of
           None \<Rightarrow> Inl (ReaddirThrew sourceDir)
         | Some sds \<Rightarrow>
             (case (if \<not> existsSync H targetDir then Some [] else readdirSync H targetDir) of
                None \<Rightarrow> Inl (ReaddirThrew targetDir)
              | Some tds \<Rightarrow>
                  Inr (foldl (syncFile H sourceDir targetDir areSyncable (listFiles tds))
                         (r0, if \<not> existsSync H targetDir then [Mkdir targetDir] else [])
                         (listFiles sds))))"

text \<open>
  \<open>syncNames\<close>: the calls made so far, and the results or the exception that ended the
  walk.
\<close>

definition syncNames_step ::
  "host \<Rightarrow> jstring \<Rightarrow> jstring \<Rightarrow> SyncPredicate \<Rightarrow>
   call list \<times> (fs_error + SyncResults) \<Rightarrow> jstring \<Rightarrow> call list \<times> (fs_error + SyncResults)" where
  "syncNames_step H sourceRoot targetRoot syncPredicate acc d =
     (case snd acc of
        Inl e \<Rightarrow> acc
      | Inr syncResults \<Rightarrow>
          (case syncDir H (path_join H sourceRoot d) (path_join H targetRoot d) syncPredicate
                  (Some syncResults) of
             Inl e \<Rightarrow> (fst acc, Inl e)
           | Inr (r, cs) \<Rightarrow> (fst acc @ cs, Inr r)))"

definition syncNames ::
  "host \<Rightarrow> jstring \<Rightarrow> jstring \<Rightarrow> SyncPredicate \<Rightarrow> call list \<times> (fs_error + SyncResults)" where
  "syncNames H sourceRoot targetRoot syncPredicate =
     (case syncDir H sourceRoot targetRoot syncPredicate None of
        Inl e \<Rightarrow> ([], Inl e)
      | Inr (r, cs) \<Rightarrow>
          foldl (syncNames_step H sourceRoot targetRoot syncPredicate) (cs, Inr r)
            (map (\<lambda>p. path_relative H sourceRoot p) (klawSync H sourceRoot)))"

text \<open>
  \<open>byNameLenDesc\<close> orders by \<open>b.name.length - a.name.length\<close>, and
  \<open>Array.prototype.sort\<close> is stable: the result is the stable sort by descending length
  of \<open>name\<close>.
\<close>

definition byNameLenDesc :: "ParsedFile \<Rightarrow> int" where
  "byNameLenDesc f = - int (length (name f))"

text \<open>
  The body of the first \<open>forEach\<close> of \<open>resolveCollisions\<close>, on \<open>toRename\<close> and \<open>toCopy\<close>.
  \<open>collisions.get(sourceFile)\<close> is the value of the entry the key came from.
\<close>

definition fileToRename :: "jstring file_map \<Rightarrow> ParsedFile list \<Rightarrow> ParsedFile option" where
  "fileToRename toRename cands =
     (case sort_key byNameLenDesc
             (filter (\<lambda>candidate. List.find (\<lambda>file. equal file candidate) (map fst toRename) = None)
                cands) of
        [] \<Rightarrow> None
      | f # _ \<Rightarrow> Some f)"

definition decide ::
  "host \<Rightarrow> jstring \<Rightarrow> jstring \<Rightarrow> jstring file_map \<times> ParsedFile file_map \<Rightarrow>
   ParsedFile \<times> ParsedFile list \<Rightarrow> jstring file_map \<times> ParsedFile file_map" where
  "decide H sourceRoot targetRoot acc entry =
     (let toRename = fst acc; toCopy = snd acc; sourceFile = fst entry
      in case fileToRename toRename (snd entry) of
           Some f \<Rightarrow> (toRename @ [(f, name sourceFile)], toCopy)
         | None \<Rightarrow>
             (toRename,
              toCopy @ [(sourceFile,
                         withParentDirectory H (relativeTo H sourceFile sourceRoot) targetRoot)]))"

definition decisions ::
  "host \<Rightarrow> jstring \<Rightarrow> jstring \<Rightarrow> ParsedFile list file_map \<Rightarrow>
   jstring file_map \<times> ParsedFile file_map" where
  "decisions H sourceRoot targetRoot colls =
     foldl (decide H sourceRoot targetRoot) ([], [])
       (sort_key (\<lambda>entry. byNameLenDesc (fst entry)) colls)"

definition resolveCollisions ::
  "host \<Rightarrow> jstring \<Rightarrow> jstring \<Rightarrow> ParsedFile list file_map \<Rightarrow> jstring \<Rightarrow> call list" where
  "resolveCollisions H sourceRoot targetRoot colls postfix0 =
     (let postfix = js '' '' @ postfix0;
          d = decisions H sourceRoot targetRoot colls
      in concat (map (\<lambda>(file, nm). [RenameFile file (nm @ postfix), OnProgress (fullPath file)])
                   (fst d))
         @ concat (map (\<lambda>(source, target).
                     [CopyFile source (withName target (name target @ postfix)),
                      OnProgress (fullPath source)])
                   (snd d)))"

section \<open>The shipped predicate\<close>

text \<open>
  \<open>syncRegex\<close> is \<open>/[^a-zA-Z0-9]+/g\<close>. \<open>s.replace(syncRegex, '')\<close> goes through \<open>s\<close> from
  the left: where a character outside the class \<open>[a-zA-Z0-9]\<close> stands, the longest run
  of such characters is the match and is replaced by the empty string; any other
  character is kept.
\<close>

definition in_class :: "jschar \<Rightarrow> bool" where
  "in_class c = ((0x61 \<le> c \<and> c \<le> 0x7A) \<or> (0x41 \<le> c \<and> c \<le> 0x5A) \<or> (0x30 \<le> c \<and> c \<le> 0x39))"

function replace_syncRegex :: "jstring \<Rightarrow> jstring" where
  "replace_syncRegex [] = []"
| "replace_syncRegex (c # cs) =
     (if in_class c then c # replace_syncRegex cs
      else replace_syncRegex (dropWhile (\<lambda>x. \<not> in_class x) cs))"
  by pat_completeness auto
termination
  by (relation "measure length") (auto simp: less_Suc_eq_le length_dropWhile_le)

definition startsWith :: "jstring \<Rightarrow> jstring \<Rightarrow> bool" where
  "startsWith s t = (take (length t) s = t)"

definition areSyncable :: SyncPredicate where
  "areSyncable sourceFile targetFile =
     (let sourceNameClean = replace_syncRegex (name sourceFile);
          targetNameClean = replace_syncRegex (name targetFile)
      in startsWith sourceNameClean targetNameClean)"

section \<open>Notions used in the statements\<close>

text \<open>
  A name as a directory listing gives it: not empty, without separator, neither \<open>.\<close> nor
  \<open>..\<close>. \<open>describes n f\<close>: \<open>f\<close> carries the \<open>name\<close> and \<open>ext\<close> that \<open>path.parse\<close> gives the file
  name \<open>n\<close>, and a \<open>root\<close> that \<open>path.parse\<close> can give; its \<open>dir\<close> is free.
\<close>

definition file_name :: "jstring \<Rightarrow> bool" where
  "file_name n \<longleftrightarrow> n \<noteq> [] \<and> CHAR_FORWARD_SLASH \<notin> set n \<and> n \<noteq> js ''.'' \<and> n \<noteq> js ''..''"

definition describes :: "jstring \<Rightarrow> ParsedFile \<Rightarrow> bool" where
  "describes n f \<longleftrightarrow>
     name f = name (path_parse n) \<and> ext f = ext (path_parse n) \<and>
     (root f = [] \<or> root f = [CHAR_FORWARD_SLASH])"

text \<open>The descriptor \<open>syncDir\<close> makes of the file named \<open>n\<close> in the directory \<open>d\<close>.\<close>

definition placed :: "jstring \<Rightarrow> jstring \<Rightarrow> ParsedFile" where
  "placed d n = (new_ParsedFile n)\<lparr>dir := d\<rparr>"

text \<open>The calls of \<open>renameFile\<close> and of \<open>copyFile\<close> in a sequence of calls, with their arguments.\<close>

fun rename_of :: "call \<Rightarrow> (ParsedFile \<times> jstring) list" where
  "rename_of (RenameFile f m) = [(f, m)]"
| "rename_of c = []"

fun copy_of :: "call \<Rightarrow> (ParsedFile \<times> ParsedFile) list" where
  "copy_of (CopyFile a b) = [(a, b)]"
| "copy_of c = []"

definition renames :: "call list \<Rightarrow> (ParsedFile \<times> jstring) list" where
  "renames cs = concat (map rename_of cs)"

definition copies :: "call list \<Rightarrow> (ParsedFile \<times> ParsedFile) list" where
  "copies cs = concat (map copy_of cs)"

text \<open>
  \<open>claimed fs c\<close>: some file of \<open>fs\<close> is \<open>equal\<close> to \<open>c\<close>, that is, has its \<open>fullPath\<close>.
\<close>

definition claimed :: "ParsedFile list \<Rightarrow> ParsedFile \<Rightarrow> bool" where
  "claimed fs c \<longleftrightarrow> (\<exists>f \<in> set fs. fullPath f = fullPath c)"

text \<open>
  The collision resolver in the words of the specification (4.4): the first of the
  candidates with the longest stem; and, key after key, either the rename of the pick
  among the candidates no earlier key of the pass has claimed, which is then claimed,
  or, when none is left, the copy of the source file to its place under the target
  root.
\<close>

fun pick_longest :: "ParsedFile list \<Rightarrow> ParsedFile option" where
  "pick_longest [] = None"
| "pick_longest (x # xs) =
     (case pick_longest xs of
        None \<Rightarrow> Some x
      | Some y \<Rightarrow> if length (name x) < length (name y) then Some y else Some x)"

datatype outcome = Renamed ParsedFile | Copied ParsedFile

fun resolution ::
  "host \<Rightarrow> jstring \<Rightarrow> jstring \<Rightarrow> ParsedFile list \<Rightarrow> (ParsedFile \<times> ParsedFile list) list \<Rightarrow>
   (ParsedFile \<times> outcome) list" where
  "resolution H sourceRoot targetRoot cl [] = []"
| "resolution H sourceRoot targetRoot cl ((k, cands) # es) =
     (case pick_longest (filter (\<lambda>c. \<not> claimed cl c) cands) of
        Some c \<Rightarrow> (k, Renamed c) # resolution H sourceRoot targetRoot (cl @ [c]) es
      | None \<Rightarrow>
          (k, Copied (withParentDirectory H (relativeTo H k sourceRoot) targetRoot))
            # resolution H sourceRoot targetRoot cl es)"

fun rename_entry :: "ParsedFile \<times> outcome \<Rightarrow> (ParsedFile \<times> jstring) list" where
  "rename_entry (k, Renamed c) = [(c, name k)]"
| "rename_entry (k, Copied t) = []"

fun copy_entry :: "ParsedFile \<times> outcome \<Rightarrow> (ParsedFile \<times> ParsedFile) list" where
  "copy_entry (k, Copied t) = [(k, t)]"
| "copy_entry (k, Renamed c) = []"

text \<open>
  What \<open>main\<close> does with the two entry points: \<open>syncNames\<close> with the shipped predicate,
  then \<open>resolveCollisions\<close> on the collisions it returned, when there are any.
\<close>

definition main_sync :: "host \<Rightarrow> jstring \<Rightarrow> jstring \<Rightarrow> jstring \<Rightarrow> call list" where
  "main_sync H sourceRoot targetRoot collisionPostfix =
     (case syncNames H sourceRoot targetRoot areSyncable of
        (cs, Inl e) \<Rightarrow> cs
      | (cs, Inr results) \<Rightarrow>
          cs @ (if length (collisions results) \<noteq> 0
                then resolveCollisions H sourceRoot targetRoot (collisions results) collisionPostfix
                else []))"

text \<open>
  The invariant of the walk: the files renamed so far have different paths, and they are
  the \<open>resolved\<close> files.
\<close>

definition walk_ok :: "call list \<times> (fs_error + SyncResults) \<Rightarrow> bool" where
  "walk_ok acc \<longleftrightarrow>
     distinct (map fullPath (map fst (renames (fst acc)))) \<and>
     (case snd acc of Inl e \<Rightarrow> True | Inr r \<Rightarrow> resolved r = map fst (renames (fst acc)))"

text \<open>
  The names \<open>syncDir\<close> keeps of a listing, the pairs of directories the walk of
  \<open>syncNames\<close> visits, in order, and the walk as a fold over them.
\<close>

definition listed_names :: "dirent list \<Rightarrow> jstring list" where
  "listed_names ds = map d_name (filter (\<lambda>d. d_isFile d \<and> d_name d \<noteq> js ''.DS_Store'') ds)"

definition dir_pairs :: "host \<Rightarrow> jstring \<Rightarrow> jstring \<Rightarrow> (jstring \<times> jstring) list" where
  "dir_pairs H sourceRoot targetRoot =
     (sourceRoot, targetRoot) #
     map (\<lambda>d. (path_join H sourceRoot d, path_join H targetRoot d))
       (map (path_relative H sourceRoot) (klawSync H sourceRoot))"

definition walk_step ::
  "host \<Rightarrow> SyncPredicate \<Rightarrow> call list \<times> (fs_error + SyncResults) \<Rightarrow> jstring \<times> jstring \<Rightarrow>
   call list \<times> (fs_error + SyncResults)" where
  "walk_step H P acc pair =
     (case snd acc of
        Inl e \<Rightarrow> acc
      | Inr r \<Rightarrow>
          (case syncDir H (fst pair) (snd pair) P (Some r) of
             Inl e \<Rightarrow> (fst acc, Inl e)
           | Inr (r', cs) \<Rightarrow> (fst acc @ cs, Inr r')))"

text \<open>
  Aligned one to one: in every pair of directories (the target directory exists, both
  are listed, the source listing has proper, different names), the target files the
  predicate matches with a source file are that file's namesake and no other; and
  different target directories have different paths.
\<close>

definition pair_aligned :: "host \<Rightarrow> SyncPredicate \<Rightarrow> jstring \<times> jstring \<Rightarrow> bool" where
  "pair_aligned H P pair \<longleftrightarrow>
     existsSync H (snd pair) \<and>
     (case (readdirSync H (fst pair), readdirSync H (snd pair)) of
        (Some S, Some T) \<Rightarrow>
          (\<forall>n \<in> set (listed_names S).
             file_name n \<and> filter (P (new_ParsedFile n)) (listFiles T) = [new_ParsedFile n]) \<and>
          distinct (listed_names S)
      | _ \<Rightarrow> False)"

definition aligned_one_to_one :: "host \<Rightarrow> SyncPredicate \<Rightarrow> jstring \<Rightarrow> jstring \<Rightarrow> bool" where
  "aligned_one_to_one H P sourceRoot targetRoot \<longleftrightarrow>
     distinct (map (\<lambda>pair. path_join H (snd pair) []) (dir_pairs H sourceRoot targetRoot)) \<and>
     (\<forall>pair \<in> set (dir_pairs H sourceRoot targetRoot). pair_aligned H P pair)"

text \<open>
  Name-aligned trees, as C7 words it: in every pair of directories, every source file
  has a target file of the same name that the predicate matches with it.
\<close>

definition name_aligned :: "host \<Rightarrow> SyncPredicate \<Rightarrow> jstring \<Rightarrow> jstring \<Rightarrow> bool" where
  "name_aligned H P sourceRoot targetRoot \<longleftrightarrow>
     (\<forall>pair \<in> set (dir_pairs H sourceRoot targetRoot).
        existsSync H (snd pair) \<and>
        (case (readdirSync H (fst pair), readdirSync H (snd pair)) of
           (Some S, Some T) \<Rightarrow>
             (\<forall>s \<in> set (listFiles S). \<exists>t \<in> set (listFiles T). base t = base s \<and> P s t)
         | _ \<Rightarrow> False))"













text \<open>
  The path strings that \<open>path.format\<close> gives back after \<open>path.parse\<close>: the empty string, the
  root, and every string that neither ends with a separator nor consists of two separators
  followed by a single component.
\<close>

definition well_formed :: "jstring \<Rightarrow> bool" where
  "well_formed p \<longleftrightarrow>
     p = [] \<or> p = [CHAR_FORWARD_SLASH] \<or>
     (last p \<noteq> CHAR_FORWARD_SLASH \<and>
      \<not> (take 2 p = [CHAR_FORWARD_SLASH, CHAR_FORWARD_SLASH] \<and> CHAR_FORWARD_SLASH \<notin> set (drop 2 p)))"

section \<open>Auxiliary notions for the proofs\<close>

text \<open>
  \<open>scanned n k st\<close>: \<open>st\<close> is what the scan of \<open>path.parse\<close> holds after the characters
  \<open>k, \<dots>, length n - 1\<close> of a name \<open>n\<close> without separator. \<open>shift\<close> moves the positions a
  state holds when the name stands behind a prefix.
\<close>

definition slash_free :: "jstring \<Rightarrow> bool" where
  "slash_free n \<longleftrightarrow> CHAR_FORWARD_SLASH \<notin> set n"

definition scanned :: "jstring \<Rightarrow> nat \<Rightarrow> scan \<Rightarrow> bool" where
  "scanned n k st \<longleftrightarrow>
     (k = length n \<and> st = scan_init) \<or>
     (k < length n \<and> \<not> matchedSlash st \<and> endPos st = int (length n) \<and> startPart st = 0 \<and>
      ((startDot st = -1 \<and> preDotState st = 0) \<or>
       (int k \<le> startDot st \<and> startDot st < int (length n) \<and> n ! nat (startDot st) = CHAR_DOT \<and>
        ((startDot st = int k \<and> preDotState st = 0) \<or>
         (int k < startDot st \<and>
          ((preDotState st = 1 \<and> n ! k = CHAR_DOT) \<or> (preDotState st = -1 \<and> n ! k \<noteq> CHAR_DOT)))))))"

definition shift :: "nat \<Rightarrow> scan \<Rightarrow> scan" where
  "shift off st =
     st\<lparr>startDot := (if startDot st = -1 then -1 else startDot st + int off),
        endPos := (if endPos st = -1 then -1 else endPos st + int off)\<rparr>"

text \<open>
  The \<open>name\<close> and \<open>ext\<close> that \<open>path.parse\<close> cuts out of a path, as functions of the final state
  of its scan.
\<close>

definition parsed_base :: "jstring \<Rightarrow> nat \<Rightarrow> scan \<Rightarrow> jstring" where
  "parsed_base p start' st =
     (if endPos st = -1 then []
      else if (startDot st = -1 \<or> preDotState st = 0 \<or>
               (preDotState st = 1 \<and> startDot st = endPos st - 1 \<and>
                startDot st = int (startPart st) + 1))
           then str_slice p start' (nat (endPos st))
           else str_slice p start' (nat (startDot st))) @
     (if endPos st = -1 \<or> (startDot st = -1 \<or> preDotState st = 0 \<or>
               (preDotState st = 1 \<and> startDot st = endPos st - 1 \<and>
                startDot st = int (startPart st) + 1))
      then []
      else str_slice p (nat (startDot st)) (nat (endPos st)))"


section \<open>A host for the examples\<close>

text \<open>
  The examples run on a host whose file system is a table from directories to their
  entries. Its \<open>join\<close> and \<open>relative\<close> are what \<open>path.join\<close> and \<open>path.relative\<close> return on
  the operands of the examples: normalised relative paths without a trailing separator,
  the second operand of \<open>relative\<close> at or below the first.
\<close>

definition plain_join :: "jstring \<Rightarrow> jstring \<Rightarrow> jstring" where
  "plain_join a b =
     (if a = [] \<and> b = [] then js ''.''
      else if b = [] then a
      else if a = [] then b
      else a @ CHAR_FORWARD_SLASH # b)"

definition plain_relative :: "jstring \<Rightarrow> jstring \<Rightarrow> jstring" where
  "plain_relative a b = drop (length a + 1) b"

definition tree_host :: "(jstring \<times> dirent list) list \<Rightarrow> jstring list \<Rightarrow> host" where
  "tree_host tree below =
     \<lparr>path_join = plain_join, path_relative = plain_relative,
      readdirSync = map_of tree, existsSync = (\<lambda>d. map_of tree d \<noteq> None),
      klawSync = (\<lambda>r. below)\<rparr>"

definition file_entry :: "string \<Rightarrow> dirent" where
  "file_entry n = \<lparr>d_name = js n, d_isFile = True\<rparr>"

text \<open>
  A source directory \<open>s\<close> with \<open>abcd.txt\<close> and \<open>abx.txt\<close>, a target directory \<open>t\<close> with
  \<open>a_______b.txt\<close> and \<open>abc.txt\<close>, no subdirectories.
\<close>

definition double_claim_tree :: host where
  "double_claim_tree =
     tree_host
       [(js ''s'', [file_entry ''abcd.txt'', file_entry ''abx.txt'']),
        (js ''t'', [file_entry ''a_______b.txt'', file_entry ''abc.txt''])]
       []"

text \<open>
  Two trees with \<open>a.txt\<close> at the root and \<open>b.txt\<close> in the subdirectory \<open>sub\<close>; and two
  directories that both hold \<open>a.txt\<close> and \<open>a.png\<close>.
\<close>

definition dir_entry :: "string \<Rightarrow> dirent" where
  "dir_entry n = \<lparr>d_name = js n, d_isFile = False\<rparr>"

definition aligned_tree :: host where
  "aligned_tree =
     tree_host
       [(js ''s'', [file_entry ''a.txt'', dir_entry ''sub'']),
        (js ''t'', [file_entry ''a.txt'', dir_entry ''sub'']),
        (js ''s/sub'', [file_entry ''b.txt'']),
        (js ''t/sub'', [file_entry ''b.txt''])]
       [js ''s/sub'']"

definition same_stem_tree :: host where
  "same_stem_tree =
     tree_host
       [(js ''s'', [file_entry ''a.txt'', file_entry ''a.png'']),
        (js ''t'', [file_entry ''a.txt'', file_entry ''a.png''])]
       []"



text \<open>
  A source directory with \<open>abc.txt\<close> and \<open>xyz.txt\<close>, a target directory with \<open>-_-.txt\<close>, whose
  stem holds no letter and no digit.
\<close>

definition claimed_tree :: host where
  "claimed_tree =
     tree_host
       [(js ''s'', [file_entry ''abc.txt'', file_entry ''xyz.txt'']),
        (js ''t'', [file_entry ''-_-.txt''])]
       []"

section \<open>Evaluation\<close>

lemmas path_eval =
  path_parse_def path_format_def js_def scan_init_def scan_char_def str_slice_def
  CHAR_FORWARD_SLASH_def CHAR_DOT_def new_ParsedFile_def fullPath_def

subsection \<open>The scan of \<open>path.parse\<close>\<close>

lemma slash_free_nth: "slash_free n \<Longrightarrow> i < length n \<Longrightarrow> n ! i \<noteq> CHAR_FORWARD_SLASH"
  by (metis nth_mem slash_free_def)

lemma scanned_step:
  assumes "scanned n (Suc i) st" "i < length n"
  shows "scanned n i (scan_char (n ! i) i st)"
  using assms unfolding scanned_def scan_char_def scan_init_def
  by (auto simp: Let_def)

lemma scanned_scan_back:
  assumes "slash_free n" "k \<le> length n" "scanned n k st"
  shows "scanned n 0 (scan_back n 0 k st)"
  using assms
proof (induction k arbitrary: st)
  case 0
  then show ?case by simp
next
  case (Suc i)
  have "n ! i \<noteq> CHAR_FORWARD_SLASH"
    using Suc.prems by (simp add: slash_free_nth)
  moreover have "scanned n i (scan_char (n ! i) i st)"
    using Suc.prems by (intro scanned_step) auto
  ultimately show ?case
    using Suc by simp
qed

lemma shift_init: "shift off scan_init = scan_init"
  by (simp add: shift_def scan_init_def)

lemma scanned_bounds: "scanned n k st \<Longrightarrow> - 1 \<le> startDot st \<and> - 1 \<le> endPos st"
  unfolding scanned_def scan_init_def by auto

lemma scan_char_shift:
  assumes "- 1 \<le> startDot st" "- 1 \<le> endPos st"
  shows "scan_char c (off + i) (shift off st) = shift off (scan_char c i st)"
  using assms unfolding scan_char_def shift_def
  by (auto simp: Let_def)

lemma scan_back_shift:
  assumes "slash_free n" "k \<le> length n" "scanned n k st" "start \<le> length pre"
  shows "scan_back (pre @ n @ suf) start (length pre + k) (shift (length pre) st) =
         scan_back (pre @ n @ suf) start (length pre) (shift (length pre) (scan_back n 0 k st))"
  using assms
proof (induction k arbitrary: st)
  case 0
  then show ?case by simp
next
  case (Suc i)
  have ns: "n ! i \<noteq> CHAR_FORWARD_SLASH"
    using Suc.prems by (simp add: slash_free_nth)
  have nth: "(pre @ n @ suf) ! (length pre + i) = n ! i"
    using Suc.prems by (simp add: nth_append)
  have sc: "scanned n i (scan_char (n ! i) i st)"
    using Suc.prems by (intro scanned_step) auto
  have "scan_back (pre @ n @ suf) start (length pre + Suc i) (shift (length pre) st) =
        scan_back (pre @ n @ suf) start (length pre + i)
          (scan_char (n ! i) (length pre + i) (shift (length pre) st))"
    using Suc.prems ns nth by simp
  also have "\<dots> = scan_back (pre @ n @ suf) start (length pre + i)
          (shift (length pre) (scan_char (n ! i) i st))"
    using scanned_bounds [OF Suc.prems(3)] by (simp add: scan_char_shift)
  also have "\<dots> = scan_back (pre @ n @ suf) start (length pre)
          (shift (length pre) (scan_back n 0 i (scan_char (n ! i) i st)))"
    using Suc.IH [OF Suc.prems(1) _ sc Suc.prems(4)] Suc.prems(2) by simp
  finally show ?case
    using ns by simp
qed

lemma scan_bare:
  assumes "slash_free n"
  shows "scanned n 0 (scan_back n 0 (length n) scan_init)"
  by (rule scanned_scan_back [OF assms]) (simp_all add: scanned_def)

lemma scan_in_dir:
  assumes "slash_free n" "n \<noteq> []" "start \<le> length D"
  shows "scan_back (D @ CHAR_FORWARD_SLASH # n) start (length (D @ CHAR_FORWARD_SLASH # n)) scan_init =
         (shift (Suc (length D)) (scan_back n 0 (length n) scan_init))\<lparr>startPart := Suc (length D)\<rparr>"
proof -
  let ?pre = "D @ [CHAR_FORWARD_SLASH]"
  let ?p = "?pre @ n @ []"
  let ?st = "scan_back n 0 (length n) scan_init"
  have sc: "scanned n 0 ?st"
    by (rule scan_bare [OF assms(1)])
  have "scan_back ?p start (length ?pre + length n) (shift (length ?pre) scan_init) =
        scan_back ?p start (length ?pre) (shift (length ?pre) ?st)"
    by (rule scan_back_shift [OF assms(1)]) (use assms in \<open>simp_all add: scanned_def\<close>)
  moreover have "\<not> matchedSlash (shift (length ?pre) ?st)"
    using sc assms(2) by (simp add: scanned_def shift_def)
  ultimately show ?thesis
    using assms(3) by (simp add: shift_init nth_append)
qed

lemma scan_in_root:
  assumes "slash_free n" "n \<noteq> []"
  shows "scan_back (CHAR_FORWARD_SLASH # n) 1 (length (CHAR_FORWARD_SLASH # n)) scan_init =
         shift 1 (scan_back n 0 (length n) scan_init)"
proof -
  let ?pre = "[CHAR_FORWARD_SLASH]"
  let ?p = "?pre @ n @ []"
  let ?st = "scan_back n 0 (length n) scan_init"
  have "scan_back ?p 1 (length ?pre + length n) (shift (length ?pre) scan_init) =
        scan_back ?p 1 (length ?pre) (shift (length ?pre) ?st)"
    by (rule scan_back_shift [OF assms(1)]) (use assms in \<open>simp_all add: scanned_def\<close>)
  then show ?thesis
    by (simp add: shift_init)
qed

lemma bare_not_absolute: "slash_free n \<Longrightarrow> n \<noteq> [] \<Longrightarrow> n ! 0 \<noteq> CHAR_FORWARD_SLASH"
  by (simp add: slash_free_nth)

lemma parse_bare:
  assumes "slash_free n" "n \<noteq> []"
  shows "root (path_parse n) = []" "dir (path_parse n) = []"
    "name (path_parse n) @ ext (path_parse n) = n"
proof -
  let ?st = "scan_back n 0 (length n) scan_init"
  have sc: "scanned n 0 ?st"
    by (rule scan_bare [OF assms(1)])
  have na: "n ! 0 \<noteq> CHAR_FORWARD_SLASH"
    using assms by (rule bare_not_absolute)
  show "root (path_parse n) = []"
    using assms na by (simp add: path_parse_def Let_def)
  show "dir (path_parse n) = []"
    using assms na sc by (simp add: path_parse_def Let_def scanned_def)
  show "name (path_parse n) @ ext (path_parse n) = n"
    using assms na sc
    by (auto simp: path_parse_def Let_def scanned_def str_slice_def scan_init_def
        simp flip: take_add)
qed

lemma parse_in_dir:
  assumes "slash_free n" "n \<noteq> []" "D \<noteq> []"
  shows "path_parse (D @ CHAR_FORWARD_SLASH # n) =
         (path_parse n)\<lparr>root := (if D ! 0 = CHAR_FORWARD_SLASH then [CHAR_FORWARD_SLASH] else []),
                         dir := D\<rparr>"
proof -
  let ?p = "D @ CHAR_FORWARD_SLASH # n"
  let ?st = "scan_back n 0 (length n) scan_init"
  let ?start = "if ?p ! 0 = CHAR_FORWARD_SLASH then 1 else 0 :: nat"
  have sc: "scanned n 0 ?st"
    by (rule scan_bare [OF assms(1)])
  have na: "n ! 0 \<noteq> CHAR_FORWARD_SLASH"
    using assms(1,2) by (rule bare_not_absolute)
  have hd: "?p ! 0 = D ! 0"
    using assms(3) by (simp add: nth_append)
  have "?start \<le> length D"
    using assms(3) by (cases D) auto
  then have st: "scan_back ?p ?start (length ?p) scan_init =
      (shift (Suc (length D)) ?st)\<lparr>startPart := Suc (length D)\<rparr>"
    by (rule scan_in_dir [OF assms(1,2)])
  show ?thesis
    unfolding path_parse_def [of ?p] Let_def st
    using assms na sc hd
    by (auto simp: path_parse_def [of n] Let_def scanned_def str_slice_def shift_def scan_init_def
        nat_add_distrib)
qed

lemma parse_in_root:
  assumes "slash_free n" "n \<noteq> []" "n \<noteq> [CHAR_DOT, CHAR_DOT]"
  shows "path_parse (CHAR_FORWARD_SLASH # n) =
         (path_parse n)\<lparr>root := [CHAR_FORWARD_SLASH], dir := [CHAR_FORWARD_SLASH]\<rparr>"
proof -
  let ?p = "CHAR_FORWARD_SLASH # n"
  let ?st = "scan_back n 0 (length n) scan_init"
  have sc: "scanned n 0 ?st"
    by (rule scan_bare [OF assms(1)])
  have na: "n ! 0 \<noteq> CHAR_FORWARD_SLASH"
    using assms(1,2) by (rule bare_not_absolute)
  have st: "scan_back ?p 1 (length ?p) scan_init = shift 1 ?st"
    by (rule scan_in_root [OF assms(1,2)])
  have dd: "\<not> (preDotState ?st = 1 \<and> startDot ?st = endPos ?st - 1 \<and> startDot ?st = 1)"
  proof
    assume a: "preDotState ?st = 1 \<and> startDot ?st = endPos ?st - 1 \<and> startDot ?st = 1"
    with sc assms(2) have "length n = 2" "n ! 0 = CHAR_DOT" "n ! 1 = CHAR_DOT"
      by (auto simp: scanned_def scan_init_def)
    then have "n = [CHAR_DOT, CHAR_DOT]"
      by (cases n; cases "tl n") auto
    with assms(3) show False by simp
  qed
  show ?thesis
    unfolding path_parse_def [of ?p] Let_def
    using assms(1,2) na sc dd st
    by (auto simp: path_parse_def [of n] Let_def scanned_def str_slice_def shift_def scan_init_def
        nat_add_distrib)
qed

subsection \<open>Descriptors of listed files\<close>

lemma file_name_bare: "file_name n \<Longrightarrow> slash_free n \<and> n \<noteq> [] \<and> n \<noteq> [CHAR_DOT, CHAR_DOT]"
  by (simp add: file_name_def slash_free_def js_def CHAR_DOT_def)

lemma parse_root_cases: "root (path_parse p) = [] \<or> root (path_parse p) = [CHAR_FORWARD_SLASH]"
  by (simp add: path_parse_def Let_def)

lemma describes_new: "file_name n \<Longrightarrow> describes n (new_ParsedFile n)"
  by (simp add: describes_def new_ParsedFile_def parse_root_cases)

lemma new_ParsedFile_name:
  assumes "file_name n"
  shows "root (new_ParsedFile n) = []" "dir (new_ParsedFile n) = []"
    "name (new_ParsedFile n) @ ext (new_ParsedFile n) = n" "fullPath (new_ParsedFile n) = n"
  using file_name_bare [OF assms] parse_bare [of n]
  by (simp_all add: new_ParsedFile_def fullPath_def path_format_def)

lemma fullPath_describes:
  assumes "file_name n" "describes n f"
  shows "fullPath f =
          (if dir f = [] then root f @ n
           else if dir f = root f then dir f @ n
           else dir f @ CHAR_FORWARD_SLASH # n)"
proof -
  have "name f @ ext f = n"
    using assms parse_bare(3) [of n] file_name_bare [of n] by (simp add: describes_def)
  then show ?thesis
    by (auto simp: fullPath_def path_format_def Let_def)
qed

lemma reparse:
  assumes "file_name n" "describes n f"
  shows "describes n (new_ParsedFile (fullPath f)) \<and>
         name (new_ParsedFile (fullPath f)) = name f \<and>
         ext (new_ParsedFile (fullPath f)) = ext f \<and>
         dir (new_ParsedFile (fullPath f)) = (if dir f \<noteq> [] then dir f else root f)"
proof -
  note b = file_name_bare [OF assms(1)]
  have r: "root f = [] \<or> root f = [CHAR_FORWARD_SLASH]"
    using assms(2) by (simp add: describes_def)
  have fp: "fullPath f =
          (if dir f = [] then root f @ n
           else if dir f = root f then dir f @ n
           else dir f @ CHAR_FORWARD_SLASH # n)"
    by (rule fullPath_describes [OF assms])
  have plain: ?thesis if "fullPath f = n" "dir f = []" "root f = []"
    using that assms(2) b parse_bare [of n]
    by (simp add: new_ParsedFile_def describes_def)
  have inroot: ?thesis
    if "fullPath f = CHAR_FORWARD_SLASH # n"
      "(if dir f \<noteq> [] then dir f else root f) = [CHAR_FORWARD_SLASH]"
    using that assms(2) b parse_in_root [of n]
    by (simp add: new_ParsedFile_def describes_def)
  have indir: ?thesis if "fullPath f = dir f @ CHAR_FORWARD_SLASH # n" "dir f \<noteq> []"
    using that assms(2) b parse_in_dir [of n "dir f"]
    by (simp add: new_ParsedFile_def describes_def)
  show ?thesis
  proof (cases "dir f = []")
    case True
    then show ?thesis
      using r fp plain inroot by auto
  next
    case False
    show ?thesis
    proof (cases "dir f = root f")
      case True
      with False r have "dir f = [CHAR_FORWARD_SLASH]" by auto
      with True fp show ?thesis
        by (intro inroot) auto
    next
      case neq: False
      with False fp show ?thesis
        by (intro indir) auto
    qed
  qed
qed

lemma withParentDirectory_describes:
  assumes "file_name n" "describes n f"
  shows "describes n (withParentDirectory H f d) \<and>
         name (withParentDirectory H f d) = name f \<and>
         ext (withParentDirectory H f d) = ext f \<and>
         dir (withParentDirectory H f d) = path_join H d (dir f)"
  using reparse [OF assms] assms(2) by (simp add: withParentDirectory_def describes_def)

lemma relativeTo_describes:
  assumes "file_name n" "describes n f"
  shows "describes n (relativeTo H f d) \<and>
         name (relativeTo H f d) = name f \<and>
         ext (relativeTo H f d) = ext f \<and>
         dir (relativeTo H f d) = path_relative H d (dir f)"
  using reparse [OF assms] assms(2) by (simp add: relativeTo_def describes_def)

lemma withName_describes:
  assumes "file_name n" "describes n f"
  shows "name (withName f m) = m \<and> ext (withName f m) = ext f \<and>
         dir (withName f m) = (if dir f \<noteq> [] then dir f else root f) \<and>
         (root (withName f m) = [] \<or> root (withName f m) = [CHAR_FORWARD_SLASH])"
  using reparse [OF assms] assms(2) by (simp add: withName_def describes_def)

lemma withParentDirectory_new:
  assumes "file_name n"
  shows "withParentDirectory H (new_ParsedFile n) d = (new_ParsedFile n)\<lparr>dir := path_join H d []\<rparr>"
  using new_ParsedFile_name [OF assms] by (simp add: withParentDirectory_def)

subsection \<open>The collision resolver and its specification\<close>

lemma find_equal_None: "(List.find (\<lambda>file. equal file c) fs = None) = (\<not> claimed fs c)"
  by (auto simp: find_None_iff claimed_def equal_def)

lemma insort_hd:
  "(case insort_key f x ys of [] \<Rightarrow> None | y # _ \<Rightarrow> Some y) =
   (case ys of [] \<Rightarrow> Some x | y # _ \<Rightarrow> if f x \<le> f y then Some x else Some y)"
  by (cases ys) auto

lemma sort_hd_pick_longest:
  "(case sort_key byNameLenDesc xs of [] \<Rightarrow> None | f # _ \<Rightarrow> Some f) = pick_longest xs"
proof (induction xs)
  case Nil
  then show ?case by simp
next
  case (Cons x xs)
  show ?case
  proof (cases "sort_key byNameLenDesc xs")
    case Nil
    with Cons show ?thesis by simp
  next
    case (Cons y ys)
    with Cons.IH have p: "pick_longest xs = Some y" by simp
    have le: "byNameLenDesc x \<le> byNameLenDesc y \<longleftrightarrow> length (name y) \<le> length (name x)"
      unfolding byNameLenDesc_def by simp
    have srt: "sort_key byNameLenDesc (x # xs) =
        (if length (name y) \<le> length (name x) then x # y # ys
         else y # insort_key byNameLenDesc x ys)"
      using Cons le by simp
    show ?thesis
      unfolding srt using p by auto
  qed
qed

lemma fileToRename_pick:
  "fileToRename toRename cands = pick_longest (filter (\<lambda>c. \<not> claimed (map fst toRename) c) cands)"
  by (simp add: fileToRename_def find_equal_None sort_hd_pick_longest)

lemma pick_longest_None: "pick_longest xs = None \<longleftrightarrow> xs = []"
  by (cases xs) (auto split: option.splits)

lemma pick_longest_Some:
  assumes "pick_longest xs = Some c"
  shows "\<exists>i < length xs. xs ! i = c \<and>
           (\<forall>j < length xs. length (name (xs ! j)) \<le> length (name c)) \<and>
           (\<forall>j < i. length (name (xs ! j)) < length (name c))"
  using assms
proof (induction xs arbitrary: c)
  case Nil
  then show ?case by simp
next
  case (Cons x xs)
  show ?case
  proof (cases "pick_longest xs")
    case None
    then have "xs = []" by (simp add: pick_longest_None)
    with Cons.prems show ?thesis by auto
  next
    case (Some y)
    from Cons.IH [OF Some] obtain i where i: "i < length xs" "xs ! i = y"
      "\<forall>j < length xs. length (name (xs ! j)) \<le> length (name y)"
      "\<forall>j < i. length (name (xs ! j)) < length (name y)"
      by blast
    show ?thesis
    proof (cases "length (name x) < length (name y)")
      case True
      with Some Cons.prems have c: "c = y" by simp
      have "\<forall>j < length (x # xs). length (name ((x # xs) ! j)) \<le> length (name c)"
        using i(3) True c by (auto simp: nth_Cons split: nat.splits)
      moreover have "\<forall>j < Suc i. length (name ((x # xs) ! j)) < length (name c)"
        using i(4) True c by (auto simp: nth_Cons split: nat.splits)
      ultimately show ?thesis
        using i(1,2) c by (intro exI [of _ "Suc i"]) auto
    next
      case False
      with Some Cons.prems have c: "c = x" by simp
      have "\<forall>j < length (x # xs). length (name ((x # xs) ! j)) \<le> length (name c)"
        using i(3) False c i(1,2) by (auto simp: nth_Cons split: nat.splits)
      then show ?thesis
        using c by (intro exI [of _ 0]) auto
    qed
  qed
qed

lemma decide_resolution:
  "foldl (decide H sr tr) (toRename, toCopy) es =
     (toRename @ concat (map rename_entry (resolution H sr tr (map fst toRename) es)),
      toCopy @ concat (map copy_entry (resolution H sr tr (map fst toRename) es)))"
proof (induction es arbitrary: toRename toCopy)
  case Nil
  then show ?case by simp
next
  case (Cons e es)
  obtain k cands where e: "e = (k, cands)" by (cases e)
  show ?case
  proof (cases "pick_longest (filter (\<lambda>c. \<not> claimed (map fst toRename) c) cands)")
    case None
    then show ?thesis
      using Cons.IH [of toRename "toCopy @ [(k, withParentDirectory H (relativeTo H k sr) tr)]"]
      by (simp add: e decide_def fileToRename_pick)
  next
    case (Some c)
    then show ?thesis
      using Cons.IH [of "toRename @ [(c, name k)]" toCopy]
      by (simp add: e decide_def fileToRename_pick)
  qed
qed

subsection \<open>Examples of \<open>path.parse\<close>\<close>

lemma parse_example_1:
  "path_parse (js ''/home/user/dir/file.txt'') =
     \<lparr>root = js ''/'', dir = js ''/home/user/dir'', name = js ''file'', ext = js ''.txt''\<rparr>"
  by (simp add: path_eval)

subsection \<open>The shipped predicate\<close>

text \<open>
  The global replace keeps exactly the characters of the class, and the class is the
  ASCII letters and digits.
\<close>

lemma filter_dropWhile_not: "filter P (dropWhile (\<lambda>x. \<not> P x) xs) = filter P xs"
  by (induction xs) auto

lemma replace_syncRegex_filter: "replace_syncRegex s = filter in_class s"
  by (induction s rule: replace_syncRegex.induct) (auto simp: filter_dropWhile_not)

lemma startsWith_prefix: "startsWith s t = prefix t s"
  unfolding startsWith_def
  by (metis append_eq_conv_conj prefix_def take_is_prefix)

lemma in_class_letters_digits:
  "in_class c \<longleftrightarrow> c \<in> set (js ''abcdefghijklmnopqrstuvwxyzABCDEFGHIJKLMNOPQRSTUVWXYZ0123456789'')"
  unfolding in_class_def js_def
  by (simp add: word_unat_eq_iff word_le_nat_alt; arith)

text \<open>
  C6. \<open>areSyncable\<close> holds exactly when the source stem, with every character that is
  not an ASCII letter or digit removed, starts with the target stem cleaned the same
  way. For the source stem \<open>Report_2024\<close> the target \<open>Report\<close> matches and the target
  \<open>Report2024_final\<close> does not.
\<close>

theorem areSyncable_cleaned_prefix:
  "areSyncable s t = prefix (filter in_class (name t)) (filter in_class (name s)) \<and>
   areSyncable (new_ParsedFile (js ''Report_2024'')) (new_ParsedFile (js ''Report'')) \<and>
   \<not> areSyncable (new_ParsedFile (js ''Report_2024'')) (new_ParsedFile (js ''Report2024_final''))"
proof -
  have "areSyncable s t = prefix (filter in_class (name t)) (filter in_class (name s))" for s t
    by (simp add: areSyncable_def replace_syncRegex_filter startsWith_prefix)
  moreover have "name (new_ParsedFile (js ''Report_2024'')) = js ''Report_2024''"
    "name (new_ParsedFile (js ''Report'')) = js ''Report''"
    "name (new_ParsedFile (js ''Report2024_final'')) = js ''Report2024_final''"
    by (simp_all add: path_eval)
  ultimately show ?thesis
    by (simp add: js_def in_class_def)
qed

text \<open>
  C10, as the code has it. A target file whose stem holds no ASCII letter or digit
  cleans to the empty string, which every string starts with: \<open>areSyncable\<close> holds for it
  against every source file, and \<open>syncDir\<close> takes it as a candidate of every source file
  of its directory for which it is not yet in \<open>resolved\<close>.
\<close>

theorem empty_cleaned_target_always_candidate:
  assumes "\<forall>c \<in> set (name t). \<not> in_class c"
  shows "areSyncable s t \<and>
         (t \<in> set targetFiles \<and>
          List.find (\<lambda>file. equal file (withParentDirectory H t targetDir)) res = None \<longrightarrow>
          withParentDirectory H t targetDir
            \<in> set (targetCandidates H targetDir areSyncable res targetFiles s))"
proof -
  have "filter in_class (name t) = []"
    using assms by (simp add: filter_empty_conv)
  then have "areSyncable s t"
    by (simp add: areSyncable_def replace_syncRegex_filter startsWith_prefix)
  then show ?thesis
    by (auto simp: targetCandidates_def)
qed

theorem empty_cleaned_target_witness:
  "areSyncable (new_ParsedFile (js ''abc.txt'')) (new_ParsedFile (js ''-_-.txt'')) \<and>
   withParentDirectory (tree_host [] []) (new_ParsedFile (js ''-_-.txt'')) (js ''t'')
     \<in> set (targetCandidates (tree_host [] []) (js ''t'') areSyncable []
              [new_ParsedFile (js ''-_-.txt'')] (new_ParsedFile (js ''abc.txt'')))"
proof -
  have n: "name (new_ParsedFile (js ''-_-.txt'')) = js ''-_-''"
    by (simp add: path_eval)
  have "\<forall>c \<in> set (name (new_ParsedFile (js ''-_-.txt''))). \<not> in_class c"
    unfolding n by (simp add: js_def in_class_def)
  from empty_cleaned_target_always_candidate [OF this, of "new_ParsedFile (js ''abc.txt'')"
      "[new_ParsedFile (js ''-_-.txt'')]" "tree_host [] []" "js ''t''" "[]"]
  show ?thesis
    by simp
qed

subsection \<open>The calls of \<open>resolveCollisions\<close>\<close>


lemma resolveCollisions_resolution:
  "resolveCollisions H sr tr colls postfix =
     (let outs = resolution H sr tr [] (sort_key (\<lambda>entry. byNameLenDesc (fst entry)) colls)
      in concat (map (\<lambda>(file, nm). [RenameFile file (nm @ js '' '' @ postfix), OnProgress (fullPath file)])
                   (concat (map rename_entry outs)))
         @ concat (map (\<lambda>(source, target).
                     [CopyFile source (withName target (name target @ js '' '' @ postfix)),
                      OnProgress (fullPath source)])
                   (concat (map copy_entry outs))))"
  by (simp add: resolveCollisions_def decisions_def decide_resolution Let_def)

lemma renames_append: "renames (xs @ ys) = renames xs @ renames ys"
  by (simp add: renames_def)

lemma copies_append: "copies (xs @ ys) = copies xs @ copies ys"
  by (simp add: copies_def)

lemma renames_rename_calls:
  "renames (concat (map (\<lambda>(file, nm). [RenameFile file (g nm), OnProgress (h file)]) xs)) =
   map (\<lambda>(file, nm). (file, g nm)) xs"
  by (induction xs) (auto simp: renames_def)

lemma renames_copy_calls:
  "renames (concat (map (\<lambda>(source, target). [CopyFile source (g target), OnProgress (h source)]) xs)) = []"
  by (induction xs) (auto simp: renames_def)

lemma copies_rename_calls:
  "copies (concat (map (\<lambda>(file, nm). [RenameFile file (g nm), OnProgress (h file)]) xs)) = []"
  by (induction xs) (auto simp: copies_def)

lemma copies_copy_calls:
  "copies (concat (map (\<lambda>(source, target). [CopyFile source (g target), OnProgress (h source)]) xs)) =
   map (\<lambda>(source, target). (source, g target)) xs"
  by (induction xs) (auto simp: copies_def)

lemma renames_resolveCollisions:
  "renames (resolveCollisions H sr tr colls postfix) =
   map (\<lambda>(file, nm). (file, nm @ js '' '' @ postfix))
     (concat (map rename_entry
        (resolution H sr tr [] (sort_key (\<lambda>entry. byNameLenDesc (fst entry)) colls))))"
  unfolding resolveCollisions_resolution Let_def renames_append
  by (simp only: renames_rename_calls renames_copy_calls append_Nil2)

lemma copies_resolveCollisions:
  "copies (resolveCollisions H sr tr colls postfix) =
   map (\<lambda>(source, target). (source, withName target (name target @ js '' '' @ postfix)))
     (concat (map copy_entry
        (resolution H sr tr [] (sort_key (\<lambda>entry. byNameLenDesc (fst entry)) colls))))"
  unfolding resolveCollisions_resolution Let_def copies_append
  by (simp only: copies_rename_calls copies_copy_calls append_Nil)

lemma resolution_keys: "map fst (resolution H sr tr cl es) = map fst es"
  by (induction es arbitrary: cl) (auto split: option.splits)

lemma entries_count:
  "length (concat (map rename_entry outs)) + length (concat (map copy_entry outs)) = length outs"
proof (induction outs)
  case Nil
  then show ?case by simp
next
  case (Cons a outs)
  obtain k oc where "a = (k, oc)" by (cases a)
  with Cons show ?case by (cases oc) auto
qed

lemma entries_names:
  "mset (map snd (concat (map rename_entry outs))) +
   mset (map (\<lambda>(k, t). name k) (concat (map copy_entry outs))) =
   mset (map (\<lambda>(k, oc). name k) outs)"
proof (induction outs)
  case Nil
  then show ?case by simp
next
  case (Cons a outs)
  obtain k oc where "a = (k, oc)" by (cases a)
  with Cons show ?case by (cases oc) auto
qed

lemma subset_add_mset_right: "A \<subseteq># B \<Longrightarrow> A \<subseteq># add_mset x B"
  by (auto simp: subseteq_mset_def intro: le_SucI)

lemma copy_entries_keys:
  "mset (map fst (concat (map copy_entry outs))) \<subseteq># mset (map fst outs)"
proof (induction outs)
  case Nil
  then show ?case by simp
next
  case (Cons a outs)
  obtain k oc where a: "a = (k, oc)" by (cases a)
  show ?case
  proof (cases oc)
    case (Renamed c)
    with Cons a show ?thesis
      by (simp add: subset_add_mset_right)
  next
    case (Copied t)
    with Cons a show ?thesis by simp
  qed
qed

lemma pick_longest_mem: "pick_longest xs = Some c \<Longrightarrow> c \<in> set xs"
  using pick_longest_Some [of xs c] by (auto simp: in_set_conv_nth)

lemma rename_entries_candidates:
  "fst ` set (concat (map rename_entry (resolution H sr tr cl es))) \<subseteq> (\<Union>e \<in> set es. set (snd e))"
proof (induction es arbitrary: cl)
  case Nil
  then show ?case by simp
next
  case (Cons e es)
  obtain k cands where e: "e = (k, cands)" by (cases e)
  show ?case
  proof (cases "pick_longest (filter (\<lambda>c. \<not> claimed cl c) cands)")
    case None
    then show ?thesis
      using Cons.IH [of cl] by (auto simp: e)
  next
    case (Some c)
    then have "c \<in> set cands"
      using pick_longest_mem by fastforce
    then show ?thesis
      using Cons.IH [of "cl @ [c]"] Some by (auto simp: e)
  qed
qed

lemmas model_eval =
  path_eval plain_join_def plain_relative_def tree_host_def file_entry_def
  withName_def withParentDirectory_def relativeTo_def equal_def

lemma entries_postfixed_names:
  "mset (map (\<lambda>(c, n). n @ pf) (concat (map rename_entry outs))) +
   mset (map (\<lambda>(k, t). name k @ pf) (concat (map copy_entry outs))) =
   mset (map (\<lambda>(k, oc). name k @ pf) outs)"
proof (induction outs)
  case Nil
  then show ?case by simp
next
  case (Cons a outs)
  obtain k oc where "a = (k, oc)" by (cases a)
  with Cons show ?case by (cases oc) auto
qed

lemma sorted_entries_names:
  "mset (map (\<lambda>(k, oc). name k @ pf) (resolution H sr tr cl (sort_key f colls))) =
   mset (map (\<lambda>(k, cands). name k @ pf) colls)"
proof -
  have "map (\<lambda>(k, oc). name k @ pf) (resolution H sr tr cl (sort_key f colls)) =
        map (\<lambda>k. name k @ pf) (map fst (resolution H sr tr cl (sort_key f colls)))"
    by (simp add: case_prod_unfold)
  also have "\<dots> = map (\<lambda>k. name k @ pf) (map fst (sort_key f colls))"
    by (simp only: resolution_keys)
  also have "\<dots> = map (\<lambda>(k, cands). name k @ pf) (sort_key f colls)"
    by (simp add: case_prod_unfold)
  finally have "mset (map (\<lambda>(k, oc). name k @ pf) (resolution H sr tr cl (sort_key f colls))) =
        image_mset (\<lambda>(k, cands). name k @ pf) (mset (sort_key f colls))"
    by simp
  then show ?thesis
    by (simp only: mset_sort mset_map)
qed

lemma sorted_desc:
  "sorted_wrt (\<lambda>a b. length (name (fst b)) \<le> length (name (fst a)))
     (sort_key (\<lambda>entry. byNameLenDesc (fst entry)) colls)"
proof -
  have "sorted (map (\<lambda>entry. byNameLenDesc (fst entry)) (sort_key (\<lambda>entry. byNameLenDesc (fst entry)) colls))"
    by (rule sorted_sort_key)
  then show ?thesis
    by (simp add: sorted_map byNameLenDesc_def)
qed

lemma sort_stable:
  "filter (\<lambda>e. length (name (fst e)) = len) (sort_key (\<lambda>entry. byNameLenDesc (fst entry)) colls) =
   filter (\<lambda>e. length (name (fst e)) = len) colls"
proof -
  have eq: "(\<lambda>e. length (name (fst e)) = len) = (\<lambda>e. byNameLenDesc (fst e) = - int len)"
    by (auto simp: byNameLenDesc_def)
  show ?thesis
    unfolding eq by (rule sort_key_stable)
qed

lemma pick_3_7_5:
  assumes "length (name a) = 3" "length (name b) = 7" "length (name c) = 5"
  shows "pick_longest [a, b, c] = Some b"
  using assms by simp

lemma fs_ops_append: "fs_ops (xs @ ys) = fs_ops xs @ fs_ops ys"
  by (simp add: fs_ops_def)

lemma fs_ops_rename_calls:
  "fs_ops (concat (map (\<lambda>(file, nm). [RenameFile file (g nm), OnProgress (h file)]) xs)) =
   concat (map (\<lambda>(file, nm). renameFile file (g nm)) xs)"
  by (induction xs) (auto simp: fs_ops_def)

lemma fs_ops_copy_calls:
  "fs_ops (concat (map (\<lambda>(source, target). [CopyFile source (g target), OnProgress (h source)]) xs)) =
   concat (map (\<lambda>(source, target). copyFile source (g target)) xs)"
  by (induction xs) (auto simp: fs_ops_def)

lemma fs_ops_resolveCollisions:
  "fs_ops (resolveCollisions H sr tr colls postfix) =
   concat (map (\<lambda>(file, newName). renameFile file newName)
             (renames (resolveCollisions H sr tr colls postfix))) @
   concat (map (\<lambda>(source, target). copyFile source target)
             (copies (resolveCollisions H sr tr colls postfix)))"
  unfolding renames_resolveCollisions copies_resolveCollisions
  unfolding resolveCollisions_resolution Let_def fs_ops_append fs_ops_rename_calls fs_ops_copy_calls
  by (simp add: case_prod_unfold comp_def)

subsection \<open>Claims about \<open>resolveCollisions\<close>\<close>


text \<open>
  C3. \<open>resolveCollisions\<close> takes the keys by descending length of stem (a stable sort
  of the entries of \<open>collisions\<close>); for each key, \<open>fileToRename\<close> is the first of the
  longest-stemmed candidates among those \<open>equal\<close> to no file picked before in the pass,
  and the pick is renamed to the key's stem, a space and the postfix: the renames are
  those of the specification's resolver. Of candidates with stems of lengths 3, 7
  and 5 the one of length 7 is renamed.
\<close>

theorem resolution_order_and_pick:
  "sorted_wrt (\<lambda>a b. length (name (fst b)) \<le> length (name (fst a)))
     (sort_key (\<lambda>entry. byNameLenDesc (fst entry)) colls) \<and>
   mset (sort_key (\<lambda>entry. byNameLenDesc (fst entry)) colls) = mset colls \<and>
   (\<forall>len. filter (\<lambda>e. length (name (fst e)) = len) (sort_key (\<lambda>entry. byNameLenDesc (fst entry)) colls) =
          filter (\<lambda>e. length (name (fst e)) = len) colls) \<and>
   renames (resolveCollisions H sr tr colls postfix) =
     map (\<lambda>(c, n). (c, n @ js '' '' @ postfix))
       (concat (map rename_entry
          (resolution H sr tr [] (sort_key (\<lambda>entry. byNameLenDesc (fst entry)) colls)))) \<and>
   fileToRename toRename cands =
     pick_longest (filter (\<lambda>c. \<not> claimed (map fst toRename) c) cands) \<and>
   (pick_longest xs = Some x \<longrightarrow>
      (\<exists>i < length xs. xs ! i = x \<and>
         (\<forall>j < length xs. length (name (xs ! j)) \<le> length (name x)) \<and>
         (\<forall>j < i. length (name (xs ! j)) < length (name x)))) \<and>
   (length (name a) = 3 \<and> length (name b) = 7 \<and> length (name c) = 5 \<longrightarrow>
      resolveCollisions H sr tr [(k, [a, b, c])] postfix =
        [RenameFile b (name k @ js '' '' @ postfix), OnProgress (fullPath b)])"
proof (intro conjI allI impI)
  show "sorted_wrt (\<lambda>a b. length (name (fst b)) \<le> length (name (fst a)))
     (sort_key (\<lambda>entry. byNameLenDesc (fst entry)) colls)"
    by (rule sorted_desc)
  show "mset (sort_key (\<lambda>entry. byNameLenDesc (fst entry)) colls) = mset colls"
    by (rule mset_sort)
  show "filter (\<lambda>e. length (name (fst e)) = len) (sort_key (\<lambda>entry. byNameLenDesc (fst entry)) colls) =
          filter (\<lambda>e. length (name (fst e)) = len) colls" for len
    by (rule sort_stable)
  show "renames (resolveCollisions H sr tr colls postfix) =
     map (\<lambda>(c, n). (c, n @ js '' '' @ postfix))
       (concat (map rename_entry
          (resolution H sr tr [] (sort_key (\<lambda>entry. byNameLenDesc (fst entry)) colls))))"
    by (rule renames_resolveCollisions)
  show "fileToRename toRename cands =
     pick_longest (filter (\<lambda>c. \<not> claimed (map fst toRename) c) cands)"
    by (rule fileToRename_pick)
  show "\<exists>i < length xs. xs ! i = x \<and>
         (\<forall>j < length xs. length (name (xs ! j)) \<le> length (name x)) \<and>
         (\<forall>j < i. length (name (xs ! j)) < length (name x))"
    if "pick_longest xs = Some x"
    using that by (rule pick_longest_Some)
  show "resolveCollisions H sr tr [(k, [a, b, c])] postfix =
        [RenameFile b (name k @ js '' '' @ postfix), OnProgress (fullPath b)]"
    if "length (name a) = 3 \<and> length (name b) = 7 \<and> length (name c) = 5"
    using that by (simp add: resolveCollisions_resolution claimed_def)
qed

theorem resolution_order_and_pick_witness:
  "resolveCollisions (tree_host [] []) (js ''s'') (js ''t'')
     [(placed (js ''s'') (js ''abcdefg.txt''),
       [placed (js ''t'') (js ''abc.txt''), placed (js ''t'') (js ''abcdefg.png''),
        placed (js ''t'') (js ''abcde.txt'')])]
     (js ''$collision$'') =
   [RenameFile (placed (js ''t'') (js ''abcdefg.png'')) (js ''abcdefg $collision$''),
    OnProgress (js ''t/abcdefg.png'')] \<and>
   pick_longest [placed (js ''t'') (js ''abc.txt''), placed (js ''t'') (js ''abcdefg.png''),
        placed (js ''t'') (js ''abcde.txt'')] = Some (placed (js ''t'') (js ''abcdefg.png''))"
proof -
  have n: "name (placed (js ''t'') (js ''abc.txt'')) = js ''abc''"
    "name (placed (js ''t'') (js ''abcdefg.png'')) = js ''abcdefg''"
    "name (placed (js ''t'') (js ''abcde.txt'')) = js ''abcde''"
    "name (placed (js ''s'') (js ''abcdefg.txt'')) = js ''abcdefg''"
    by (simp_all add: placed_def path_eval)
  have p: "fullPath (placed (js ''t'') (js ''abcdefg.png'')) = js ''t/abcdefg.png''"
    by (simp add: placed_def path_eval)
  have l: "length (name (placed (js ''t'') (js ''abc.txt''))) = 3 \<and>
      length (name (placed (js ''t'') (js ''abcdefg.png''))) = 7 \<and>
      length (name (placed (js ''t'') (js ''abcde.txt''))) = 5"
    unfolding n by (simp add: js_def)
  from resolution_order_and_pick [where a = "placed (js ''t'') (js ''abc.txt'')"
      and b = "placed (js ''t'') (js ''abcdefg.png'')" and c = "placed (js ''t'') (js ''abcde.txt'')"
      and k = "placed (js ''s'') (js ''abcdefg.txt'')" and H = "tree_host [] []"
      and sr = "js ''s''" and tr = "js ''t''" and postfix = "js ''$collision$''"]
  have "resolveCollisions (tree_host [] []) (js ''s'') (js ''t'')
     [(placed (js ''s'') (js ''abcdefg.txt''),
       [placed (js ''t'') (js ''abc.txt''), placed (js ''t'') (js ''abcdefg.png''),
        placed (js ''t'') (js ''abcde.txt'')])]
     (js ''$collision$'') =
   [RenameFile (placed (js ''t'') (js ''abcdefg.png''))
      (name (placed (js ''s'') (js ''abcdefg.txt'')) @ js '' '' @ js ''$collision$''),
    OnProgress (fullPath (placed (js ''t'') (js ''abcdefg.png'')))]"
    using l by blast
  moreover have "pick_longest [placed (js ''t'') (js ''abc.txt''), placed (js ''t'') (js ''abcdefg.png''),
        placed (js ''t'') (js ''abcde.txt'')] = Some (placed (js ''t'') (js ''abcdefg.png''))"
    using l by simp
  ultimately show ?thesis
    unfolding n p by (simp add: js_def)
qed

text \<open>
  C4. \<open>resolveCollisions\<close> calls \<open>renameFile\<close> or \<open>copyFile\<close> once for every key of
  \<open>collisions\<close>, and never both: the two kinds of calls together are as many as the keys;
  the new names of the renames and the sources of the copies, taken with their
  postfixed names, are the keys' postfixed names, each as often as it is a key's; every
  copy is the copy of a key and every rename the rename of a candidate. What reaches the
  file system is \<open>renameFile\<close> of each rename (nothing, when the candidate already bears
  the new name) and then \<open>copyFile\<close> of each copy.
\<close>

theorem collision_totality:
  "length (renames (resolveCollisions H sr tr colls postfix)) +
     length (copies (resolveCollisions H sr tr colls postfix)) = length colls \<and>
   mset (map snd (renames (resolveCollisions H sr tr colls postfix))) +
     mset (map (\<lambda>(source, target). name source @ js '' '' @ postfix)
            (copies (resolveCollisions H sr tr colls postfix))) =
     mset (map (\<lambda>(k, cands). name k @ js '' '' @ postfix) colls) \<and>
   mset (map fst (copies (resolveCollisions H sr tr colls postfix))) \<subseteq># mset (map fst colls) \<and>
   fst ` set (renames (resolveCollisions H sr tr colls postfix)) \<subseteq> (\<Union>e \<in> set colls. set (snd e)) \<and>
   fs_ops (resolveCollisions H sr tr colls postfix) =
     concat (map (\<lambda>(file, newName). renameFile file newName)
               (renames (resolveCollisions H sr tr colls postfix))) @
     concat (map (\<lambda>(source, target). copyFile source target)
               (copies (resolveCollisions H sr tr colls postfix)))"
proof -
  let ?es = "sort_key (\<lambda>entry. byNameLenDesc (fst entry)) colls"
  let ?outs = "resolution H sr tr [] ?es"
  let ?pf = "js '' '' @ postfix"
  have "length ?outs = length (map fst ?outs)"
    by simp
  also have "\<dots> = length colls"
    by (simp only: resolution_keys length_map length_sort)
  finally have len: "length ?outs = length colls" .
  have 1: "length (renames (resolveCollisions H sr tr colls postfix)) +
     length (copies (resolveCollisions H sr tr colls postfix)) = length colls"
    using entries_count [of ?outs] len
    by (simp add: renames_resolveCollisions copies_resolveCollisions)
  have r: "map snd (renames (resolveCollisions H sr tr colls postfix)) =
      map (\<lambda>(c, n). n @ ?pf) (concat (map rename_entry ?outs))"
    by (simp add: renames_resolveCollisions case_prod_unfold)
  have c: "map (\<lambda>(source, target). name source @ ?pf)
            (copies (resolveCollisions H sr tr colls postfix)) =
      map (\<lambda>(k, t). name k @ ?pf) (concat (map copy_entry ?outs))"
    by (simp add: copies_resolveCollisions case_prod_unfold)
  have 2: "mset (map snd (renames (resolveCollisions H sr tr colls postfix))) +
     mset (map (\<lambda>(source, target). name source @ ?pf)
            (copies (resolveCollisions H sr tr colls postfix))) =
     mset (map (\<lambda>(k, cands). name k @ ?pf) colls)"
    unfolding r c entries_postfixed_names sorted_entries_names ..
  have "map fst (copies (resolveCollisions H sr tr colls postfix)) =
        map fst (concat (map copy_entry ?outs))"
    by (simp add: copies_resolveCollisions case_prod_unfold)
  then have "mset (map fst (copies (resolveCollisions H sr tr colls postfix))) \<subseteq>#
        mset (map fst ?outs)"
    by (simp only: copy_entries_keys)
  also have "mset (map fst ?outs) = mset (map fst colls)"
    by (simp only: resolution_keys mset_map mset_sort)
  finally have 3: "mset (map fst (copies (resolveCollisions H sr tr colls postfix))) \<subseteq>#
      mset (map fst colls)" .
  have "fst ` set (renames (resolveCollisions H sr tr colls postfix)) =
        fst ` set (concat (map rename_entry ?outs))"
    by (simp add: renames_resolveCollisions image_image case_prod_unfold)
  also have "\<dots> \<subseteq> (\<Union>e \<in> set ?es. set (snd e))"
    by (rule rename_entries_candidates)
  also have "\<dots> = (\<Union>e \<in> set colls. set (snd e))"
    by simp
  finally have 4: "fst ` set (renames (resolveCollisions H sr tr colls postfix)) \<subseteq>
      (\<Union>e \<in> set colls. set (snd e))" .
  note 5 = fs_ops_resolveCollisions [of H sr tr colls postfix]
  from 1 2 3 4 5 show ?thesis by (intro conjI)
qed

text \<open>
  C5. When every candidate of a key is \<open>equal\<close> to a file already picked, the key goes to
  \<open>toCopy\<close> with its descriptor made relative to \<open>sourceRoot\<close> and reparented under
  \<open>targetRoot\<close>, and \<open>copyFile\<close> is called with that descriptor renamed to its stem, a
  space and the postfix. For a key that describes a listed file, the copy's directory is
  \<open>path.join(targetRoot, path.relative(sourceRoot, dir))\<close>, its stem the key's stem, a space
  and the postfix, its extension the key's. Of two keys with the same single candidate,
  whichever comes first in \<open>collisions\<close>, the one with the longer stem gets the rename and
  the other the copy.
\<close>

theorem fallback_copy:
  "((\<forall>c \<in> set cands. claimed (map fst toRename) c) \<longrightarrow>
      decide H sr tr (toRename, toCopy) (k, cands) =
        (toRename, toCopy @ [(k, withParentDirectory H (relativeTo H k sr) tr)])) \<and>
   copies (resolveCollisions H sr tr colls postfix) =
     map (\<lambda>(source, target). (source, withName target (name target @ js '' '' @ postfix)))
       (snd (decisions H sr tr colls)) \<and>
   (file_name n \<and> describes n k \<and> path_join H tr (path_relative H sr (dir k)) \<noteq> [] \<longrightarrow>
      dir (withName (withParentDirectory H (relativeTo H k sr) tr)
             (name (withParentDirectory H (relativeTo H k sr) tr) @ js '' '' @ postfix)) =
        path_join H tr (path_relative H sr (dir k)) \<and>
      name (withName (withParentDirectory H (relativeTo H k sr) tr)
             (name (withParentDirectory H (relativeTo H k sr) tr) @ js '' '' @ postfix)) =
        name k @ js '' '' @ postfix \<and>
      ext (withName (withParentDirectory H (relativeTo H k sr) tr)
             (name (withParentDirectory H (relativeTo H k sr) tr) @ js '' '' @ postfix)) =
        ext k) \<and>
   (length (name s2) < length (name s1) \<longrightarrow>
      resolveCollisions H sr tr [(s1, [c]), (s2, [c])] postfix =
        [RenameFile c (name s1 @ js '' '' @ postfix), OnProgress (fullPath c),
         CopyFile s2 (withName (withParentDirectory H (relativeTo H s2 sr) tr)
                        (name (withParentDirectory H (relativeTo H s2 sr) tr) @ js '' '' @ postfix)),
         OnProgress (fullPath s2)] \<and>
      resolveCollisions H sr tr [(s2, [c]), (s1, [c])] postfix =
        resolveCollisions H sr tr [(s1, [c]), (s2, [c])] postfix)"
proof (intro conjI impI)
  show "decide H sr tr (toRename, toCopy) (k, cands) =
        (toRename, toCopy @ [(k, withParentDirectory H (relativeTo H k sr) tr)])"
    if "\<forall>c \<in> set cands. claimed (map fst toRename) c"
  proof -
    have "filter (\<lambda>c. \<not> claimed (map fst toRename) c) cands = []"
      using that by (simp add: filter_empty_conv)
    then show ?thesis
      by (simp add: decide_def fileToRename_pick)
  qed
  show "copies (resolveCollisions H sr tr colls postfix) =
     map (\<lambda>(source, target). (source, withName target (name target @ js '' '' @ postfix)))
       (snd (decisions H sr tr colls))"
    by (simp add: copies_resolveCollisions decisions_def decide_resolution)
next
  assume a: "file_name n \<and> describes n k \<and> path_join H tr (path_relative H sr (dir k)) \<noteq> []"
  let ?r = "relativeTo H k sr"
  let ?t = "withParentDirectory H ?r tr"
  have r: "describes n ?r" "name ?r = name k" "ext ?r = ext k" "dir ?r = path_relative H sr (dir k)"
    using relativeTo_describes [of n k H sr] a by simp_all
  have t: "describes n ?t" "name ?t = name k" "ext ?t = ext k"
    "dir ?t = path_join H tr (path_relative H sr (dir k))"
    using withParentDirectory_describes [of n ?r H tr] a r by simp_all
  have d: "name (withName ?t m) = m" "ext (withName ?t m) = ext k"
    "dir (withName ?t m) = path_join H tr (path_relative H sr (dir k))" for m
    using withName_describes [of n ?t m] a t by simp_all
  show "dir (withName ?t (name ?t @ js '' '' @ postfix)) = path_join H tr (path_relative H sr (dir k))"
    by (rule d)
  show "name (withName ?t (name ?t @ js '' '' @ postfix)) = name k @ js '' '' @ postfix"
    unfolding d t ..
  show "ext (withName ?t (name ?t @ js '' '' @ postfix)) = ext k"
    by (rule d)
next
  assume l: "length (name s2) < length (name s1)"
  have le: "byNameLenDesc s1 < byNameLenDesc s2"
    using l by (simp add: byNameLenDesc_def)
  have s12: "sort_key (\<lambda>entry. byNameLenDesc (fst entry)) [(s1, [c]), (s2, [c])] = [(s1, [c]), (s2, [c])]"
    using le by simp
  have s21: "sort_key (\<lambda>entry. byNameLenDesc (fst entry)) [(s2, [c]), (s1, [c])] = [(s1, [c]), (s2, [c])]"
    using le by simp
  show "resolveCollisions H sr tr [(s1, [c]), (s2, [c])] postfix =
        [RenameFile c (name s1 @ js '' '' @ postfix), OnProgress (fullPath c),
         CopyFile s2 (withName (withParentDirectory H (relativeTo H s2 sr) tr)
                        (name (withParentDirectory H (relativeTo H s2 sr) tr) @ js '' '' @ postfix)),
         OnProgress (fullPath s2)]"
    unfolding resolveCollisions_resolution s12 by (simp add: claimed_def)
  show "resolveCollisions H sr tr [(s2, [c]), (s1, [c])] postfix =
        resolveCollisions H sr tr [(s1, [c]), (s2, [c])] postfix"
    unfolding resolveCollisions_resolution s12 s21 ..
qed

theorem fallback_copy_witness:
  "decide (tree_host [] []) (js ''s'') (js ''t'')
     ([(placed (js ''t'') (js ''a.txt''), js ''abcd'')], [])
     (placed (js ''s'') (js ''ab.txt''), [placed (js ''t'') (js ''a.txt'')]) =
   ([(placed (js ''t'') (js ''a.txt''), js ''abcd'')],
    [(placed (js ''s'') (js ''ab.txt''), placed (js ''t'') (js ''ab.txt''))]) \<and>
   resolveCollisions (tree_host [] []) (js ''s'') (js ''t'')
     [(placed (js ''s'') (js ''ab.txt''), [placed (js ''t'') (js ''a.txt'')]),
      (placed (js ''s'') (js ''abcd.txt''), [placed (js ''t'') (js ''a.txt'')])]
     (js ''$collision$'') =
   [RenameFile (placed (js ''t'') (js ''a.txt'')) (js ''abcd $collision$''),
    OnProgress (js ''t/a.txt''),
    CopyFile (placed (js ''s'') (js ''ab.txt''))
      \<lparr>root = [], dir = js ''t'', name = js ''ab $collision$'', ext = js ''.txt''\<rparr>,
    OnProgress (js ''s/ab.txt'')] \<and>
   dir (withName (placed (js ''t'') (js ''ab.txt'')) (js ''ab $collision$'')) = js ''t''"
proof -
  let ?H = "tree_host [] []"
  let ?c = "placed (js ''t'') (js ''a.txt'')"
  let ?k0 = "placed (js ''s'') (js ''ab.txt'')"
  let ?k1 = "placed (js ''s'') (js ''abcd.txt'')"
  note fc = fallback_copy [where H = ?H and sr = "js ''s''" and tr = "js ''t''" and k = ?k0
      and cands = "[?c]" and toRename = "[(?c, js ''abcd'')]" and toCopy = "[]"
      and n = "js ''ab.txt''" and ?s1.0 = ?k1 and ?s2.0 = ?k0 and c = ?c
      and postfix = "js ''$collision$''"]
  have t: "withParentDirectory ?H (relativeTo ?H ?k0 (js ''s'')) (js ''t'') = placed (js ''t'') (js ''ab.txt'')"
    by (simp add: placed_def model_eval)
  have h1: "\<forall>c \<in> set [?c]. claimed (map fst [(?c, js ''abcd'')]) c"
    by (simp add: claimed_def)
  have h2: "file_name (js ''ab.txt'') \<and> describes (js ''ab.txt'') ?k0 \<and>
      path_join ?H (js ''t'') (path_relative ?H (js ''s'') (dir ?k0)) \<noteq> []"
    by (simp add: file_name_def describes_def placed_def model_eval)
  have h3: "length (name ?k0) < length (name ?k1)"
    by (simp add: placed_def path_eval)
  have 1: "decide ?H (js ''s'') (js ''t'') ([(?c, js ''abcd'')], []) (?k0, [?c]) =
      ([(?c, js ''abcd'')], [(?k0, placed (js ''t'') (js ''ab.txt''))])"
    using fc h1 unfolding t by simp
  have 2: "resolveCollisions ?H (js ''s'') (js ''t'') [(?k0, [?c]), (?k1, [?c])] (js ''$collision$'') =
      [RenameFile ?c (name ?k1 @ js '' '' @ js ''$collision$''), OnProgress (fullPath ?c),
       CopyFile ?k0 (withName (placed (js ''t'') (js ''ab.txt''))
                       (name (placed (js ''t'') (js ''ab.txt'')) @ js '' '' @ js ''$collision$'')),
       OnProgress (fullPath ?k0)]"
    using fc h3 unfolding t by simp
  have 3: "dir (withName (placed (js ''t'') (js ''ab.txt''))
                       (name (placed (js ''t'') (js ''ab.txt'')) @ js '' '' @ js ''$collision$'')) =
      path_join ?H (js ''t'') (path_relative ?H (js ''s'') (dir ?k0))"
    using fc h2 unfolding t by blast
  have e: "name ?k1 @ js '' '' @ js ''$collision$'' = js ''abcd $collision$''"
    "fullPath ?c = js ''t/a.txt''" "fullPath ?k0 = js ''s/ab.txt''"
    "name (placed (js ''t'') (js ''ab.txt'')) @ js '' '' @ js ''$collision$'' = js ''ab $collision$''"
    "withName (placed (js ''t'') (js ''ab.txt'')) (js ''ab $collision$'') =
       \<lparr>root = [], dir = js ''t'', name = js ''ab $collision$'', ext = js ''.txt''\<rparr>"
    "path_join ?H (js ''t'') (path_relative ?H (js ''s'') (dir ?k0)) = js ''t''"
    by (simp_all add: placed_def model_eval)
  show ?thesis
    using 1 2 3 unfolding e by simp
qed

subsection \<open>Claims about \<open>syncDir\<close> and \<open>syncNames\<close>\<close>

lemma targetCandidates_claimed:
  "targetCandidates H targetDir P res targetFiles s =
     filter (\<lambda>c. \<not> claimed res c)
       (map (\<lambda>t. withParentDirectory H t targetDir) (filter (P s) targetFiles))"
  by (simp add: targetCandidates_def find_equal_None)

lemma placed_fields:
  assumes "file_name n"
  shows "root (placed d n) = []" "dir (placed d n) = d" "describes n (placed d n)"
    "name (placed d n) = name (new_ParsedFile n)" "ext (placed d n) = ext (new_ParsedFile n)"
  using new_ParsedFile_name [OF assms] describes_new [OF assms]
  by (simp_all add: placed_def describes_def)

lemma withParentDirectory_placed:
  "file_name n \<Longrightarrow> withParentDirectory H (new_ParsedFile n) d = placed (path_join H d []) n"
  by (simp add: withParentDirectory_new placed_def)

lemma withName_placed:
  assumes "file_name n"
  shows "name (withName (placed d n) m) = m \<and> ext (withName (placed d n) m) = ext (placed d n) \<and>
         dir (withName (placed d n) m) = d"
  using withName_describes [OF assms placed_fields(3) [OF assms], of d m] placed_fields [OF assms, of d]
  by auto

text \<open>
  C2. For a source file, the candidates are the target files that satisfy the predicate,
  reparented under the target directory, less those \<open>equal\<close> to a file of \<open>resolved\<close>.
  One candidate: it is appended to \<open>resolved\<close> and \<open>renameFile\<close> is called on it with the
  source file's stem. None: \<open>copyFile\<close> is called from the source file under the source
  directory to the source file under the target directory. Two or more: no rename and no
  copy; \<open>collisions\<close> gets an entry from the source file under the source directory to the
  whole list of candidates. For files that come from a directory listing, the copy keeps
  the stem and the extension and lies in \<open>path.join(targetDir, '')\<close>, and the renamed
  candidate keeps its directory and extension and gets the new stem.
\<close>

theorem syncFile_cases:
  "targetCandidates H targetDir P (resolved r) targetFiles s =
     filter (\<lambda>c. \<not> claimed (resolved r) c)
       (map (\<lambda>t. withParentDirectory H t targetDir) (filter (P s) targetFiles)) \<and>
   (targetCandidates H targetDir P (resolved r) targetFiles s = [c] \<longrightarrow>
      syncFile H sourceDir targetDir P targetFiles (r, cs) s =
        (r\<lparr>resolved := resolved r @ [c]\<rparr>,
         cs @ [RenameFile c (name s), OnProgress (fullPath (withParentDirectory H s sourceDir))])) \<and>
   (targetCandidates H targetDir P (resolved r) targetFiles s = [] \<longrightarrow>
      syncFile H sourceDir targetDir P targetFiles (r, cs) s =
        (r, cs @ [CopyFile (withParentDirectory H s sourceDir) (withParentDirectory H s targetDir),
                  OnProgress (fullPath (withParentDirectory H s sourceDir))])) \<and>
   (2 \<le> length (targetCandidates H targetDir P (resolved r) targetFiles s) \<longrightarrow>
      syncFile H sourceDir targetDir P targetFiles (r, cs) s =
        (r\<lparr>collisions := collisions r @
             [(withParentDirectory H s sourceDir,
               targetCandidates H targetDir P (resolved r) targetFiles s)]\<rparr>,
         cs @ [OnProgress (fullPath (withParentDirectory H s sourceDir))])) \<and>
   (file_name sn \<longrightarrow>
      withParentDirectory H (new_ParsedFile sn) targetDir = placed (path_join H targetDir []) sn \<and>
      name (placed (path_join H targetDir []) sn) = name (new_ParsedFile sn) \<and>
      ext (placed (path_join H targetDir []) sn) = ext (new_ParsedFile sn) \<and>
      dir (placed (path_join H targetDir []) sn) = path_join H targetDir []) \<and>
   (file_name tn \<longrightarrow>
      withParentDirectory H (new_ParsedFile tn) targetDir = placed (path_join H targetDir []) tn \<and>
      name (withName (placed (path_join H targetDir []) tn) m) = m \<and>
      ext (withName (placed (path_join H targetDir []) tn) m) = ext (new_ParsedFile tn) \<and>
      dir (withName (placed (path_join H targetDir []) tn) m) = path_join H targetDir [])"
proof (intro conjI impI)
  show "targetCandidates H targetDir P (resolved r) targetFiles s =
     filter (\<lambda>c. \<not> claimed (resolved r) c)
       (map (\<lambda>t. withParentDirectory H t targetDir) (filter (P s) targetFiles))"
    by (rule targetCandidates_claimed)
  show "syncFile H sourceDir targetDir P targetFiles (r, cs) s =
        (r\<lparr>resolved := resolved r @ [c]\<rparr>,
         cs @ [RenameFile c (name s), OnProgress (fullPath (withParentDirectory H s sourceDir))])"
    if "targetCandidates H targetDir P (resolved r) targetFiles s = [c]"
    using that by (simp add: syncFile_def)
  show "syncFile H sourceDir targetDir P targetFiles (r, cs) s =
        (r, cs @ [CopyFile (withParentDirectory H s sourceDir) (withParentDirectory H s targetDir),
                  OnProgress (fullPath (withParentDirectory H s sourceDir))])"
    if "targetCandidates H targetDir P (resolved r) targetFiles s = []"
    using that by (simp add: syncFile_def)
  show "syncFile H sourceDir targetDir P targetFiles (r, cs) s =
        (r\<lparr>collisions := collisions r @
             [(withParentDirectory H s sourceDir,
               targetCandidates H targetDir P (resolved r) targetFiles s)]\<rparr>,
         cs @ [OnProgress (fullPath (withParentDirectory H s sourceDir))])"
    if "2 \<le> length (targetCandidates H targetDir P (resolved r) targetFiles s)"
    using that by (simp add: syncFile_def Let_def)
next
  assume n: "file_name sn"
  show "withParentDirectory H (new_ParsedFile sn) targetDir = placed (path_join H targetDir []) sn"
    using n by (rule withParentDirectory_placed)
  show "name (placed (path_join H targetDir []) sn) = name (new_ParsedFile sn)"
    "ext (placed (path_join H targetDir []) sn) = ext (new_ParsedFile sn)"
    "dir (placed (path_join H targetDir []) sn) = path_join H targetDir []"
    using placed_fields [OF n] by simp_all
next
  assume n: "file_name tn"
  show "withParentDirectory H (new_ParsedFile tn) targetDir = placed (path_join H targetDir []) tn"
    using n by (rule withParentDirectory_placed)
  show "name (withName (placed (path_join H targetDir []) tn) m) = m"
    "ext (withName (placed (path_join H targetDir []) tn) m) = ext (new_ParsedFile tn)"
    "dir (withName (placed (path_join H targetDir []) tn) m) = path_join H targetDir []"
    using withName_placed [OF n, of "path_join H targetDir []" m] placed_fields [OF n]
    by simp_all
qed

lemmas predicate_eval =
  areSyncable_def replace_syncRegex_filter startsWith_def in_class_def

theorem syncFile_cases_witness:
  "syncFile (tree_host [] []) (js ''s'') (js ''t'') areSyncable
     [new_ParsedFile (js ''Report.txt''), new_ParsedFile (js ''Report2024_final.txt'')]
     (\<lparr>resolved = [], collisions = []\<rparr>, []) (new_ParsedFile (js ''Report_2024.txt'')) =
   (\<lparr>resolved = [placed (js ''t'') (js ''Report.txt'')], collisions = []\<rparr>,
    [RenameFile (placed (js ''t'') (js ''Report.txt'')) (js ''Report_2024''),
     OnProgress (js ''s/Report_2024.txt'')]) \<and>
   syncFile (tree_host [] []) (js ''s'') (js ''t'') areSyncable
     [new_ParsedFile (js ''Report.txt''), new_ParsedFile (js ''Report2024_final.txt'')]
     (\<lparr>resolved = [], collisions = []\<rparr>, []) (new_ParsedFile (js ''NewFile.txt'')) =
   (\<lparr>resolved = [], collisions = []\<rparr>,
    [CopyFile (placed (js ''s'') (js ''NewFile.txt'')) (placed (js ''t'') (js ''NewFile.txt'')),
     OnProgress (js ''s/NewFile.txt'')]) \<and>
   syncFile (tree_host [] []) (js ''s'') (js ''t'') areSyncable
     [new_ParsedFile (js ''ab.txt''), new_ParsedFile (js ''abc.txt'')]
     (\<lparr>resolved = [], collisions = []\<rparr>, []) (new_ParsedFile (js ''abcd.txt'')) =
   (\<lparr>resolved = [],
      collisions = [(placed (js ''s'') (js ''abcd.txt''),
                     [placed (js ''t'') (js ''ab.txt''), placed (js ''t'') (js ''abc.txt'')])]\<rparr>,
    [OnProgress (js ''s/abcd.txt'')]) \<and>
   withName (placed (js ''t'') (js ''Report.txt'')) (js ''Report_2024'') =
     \<lparr>root = [], dir = js ''t'', name = js ''Report_2024'', ext = js ''.txt''\<rparr>"
proof -
  let ?H = "tree_host [] []"
  let ?r = "\<lparr>resolved = [], collisions = []\<rparr>"
  let ?T1 = "[new_ParsedFile (js ''Report.txt''), new_ParsedFile (js ''Report2024_final.txt'')]"
  let ?T2 = "[new_ParsedFile (js ''ab.txt''), new_ParsedFile (js ''abc.txt'')]"
  have c1: "targetCandidates ?H (js ''t'') areSyncable (resolved ?r) ?T1
      (new_ParsedFile (js ''Report_2024.txt'')) = [placed (js ''t'') (js ''Report.txt'')]"
    by (simp add: targetCandidates_def predicate_eval placed_def model_eval)
  have c2: "targetCandidates ?H (js ''t'') areSyncable (resolved ?r) ?T1
      (new_ParsedFile (js ''NewFile.txt'')) = []"
    by (simp add: targetCandidates_def predicate_eval placed_def model_eval)
  have c3: "targetCandidates ?H (js ''t'') areSyncable (resolved ?r) ?T2
      (new_ParsedFile (js ''abcd.txt'')) =
      [placed (js ''t'') (js ''ab.txt''), placed (js ''t'') (js ''abc.txt'')]"
    by (simp add: targetCandidates_def predicate_eval placed_def model_eval)
  have w: "withParentDirectory ?H (new_ParsedFile (js ''Report_2024.txt'')) (js ''s'') =
        placed (js ''s'') (js ''Report_2024.txt'')"
    "withParentDirectory ?H (new_ParsedFile (js ''NewFile.txt'')) (js ''s'') =
        placed (js ''s'') (js ''NewFile.txt'')"
    "withParentDirectory ?H (new_ParsedFile (js ''NewFile.txt'')) (js ''t'') =
        placed (js ''t'') (js ''NewFile.txt'')"
    "withParentDirectory ?H (new_ParsedFile (js ''abcd.txt'')) (js ''s'') =
        placed (js ''s'') (js ''abcd.txt'')"
    by (simp_all add: placed_def model_eval)
  have p: "fullPath (placed (js ''s'') (js ''Report_2024.txt'')) = js ''s/Report_2024.txt''"
    "fullPath (placed (js ''s'') (js ''NewFile.txt'')) = js ''s/NewFile.txt''"
    "fullPath (placed (js ''s'') (js ''abcd.txt'')) = js ''s/abcd.txt''"
    "name (new_ParsedFile (js ''Report_2024.txt'')) = js ''Report_2024''"
    by (simp_all add: placed_def model_eval)
  have 1: "syncFile ?H (js ''s'') (js ''t'') areSyncable ?T1 (?r, []) (new_ParsedFile (js ''Report_2024.txt'')) =
      (\<lparr>resolved = [placed (js ''t'') (js ''Report.txt'')], collisions = []\<rparr>,
       [RenameFile (placed (js ''t'') (js ''Report.txt'')) (js ''Report_2024''),
        OnProgress (js ''s/Report_2024.txt'')])"
    using syncFile_cases [where H = ?H and targetDir = "js ''t''" and sourceDir = "js ''s''"
        and P = areSyncable and r = ?r and cs = "[]" and targetFiles = ?T1
        and s = "new_ParsedFile (js ''Report_2024.txt'')" and c = "placed (js ''t'') (js ''Report.txt'')"]
      c1
    unfolding w p by simp
  have 2: "syncFile ?H (js ''s'') (js ''t'') areSyncable ?T1 (?r, []) (new_ParsedFile (js ''NewFile.txt'')) =
      (?r, [CopyFile (placed (js ''s'') (js ''NewFile.txt'')) (placed (js ''t'') (js ''NewFile.txt'')),
            OnProgress (js ''s/NewFile.txt'')])"
    using syncFile_cases [where H = ?H and targetDir = "js ''t''" and sourceDir = "js ''s''"
        and P = areSyncable and r = ?r and cs = "[]" and targetFiles = ?T1
        and s = "new_ParsedFile (js ''NewFile.txt'')"]
      c2
    unfolding w p by simp
  have 3: "syncFile ?H (js ''s'') (js ''t'') areSyncable ?T2 (?r, []) (new_ParsedFile (js ''abcd.txt'')) =
      (\<lparr>resolved = [],
         collisions = [(placed (js ''s'') (js ''abcd.txt''),
                        [placed (js ''t'') (js ''ab.txt''), placed (js ''t'') (js ''abc.txt'')])]\<rparr>,
       [OnProgress (js ''s/abcd.txt'')])"
    using syncFile_cases [where H = ?H and targetDir = "js ''t''" and sourceDir = "js ''s''"
        and P = areSyncable and r = ?r and cs = "[]" and targetFiles = ?T2
        and s = "new_ParsedFile (js ''abcd.txt'')"]
      c3
    unfolding w p by simp
  have 4: "withName (placed (js ''t'') (js ''Report.txt'')) (js ''Report_2024'') =
     \<lparr>root = [], dir = js ''t'', name = js ''Report_2024'', ext = js ''.txt''\<rparr>"
    by (simp add: placed_def model_eval)
  from 1 2 3 4 show ?thesis by (intro conjI)
qed

lemma renames_single [simp]:
  "renames [RenameFile f m] = [(f, m)]" "renames [CopyFile a b] = []"
  "renames [OnProgress p] = []" "renames [Mkdir d] = []" "renames [] = []"
  by (simp_all add: renames_def)

lemma renames_Cons:
  "renames (c # cs) = rename_of c @ renames cs"
  by (simp add: renames_def)

lemma syncFile_resolved:
  assumes "syncFile H sd td P tfs (r, cs) s = (r', cs')"
    and "resolved r = pre @ map fst (renames cs)"
    and "distinct (map fullPath (resolved r))"
  shows "resolved r' = pre @ map fst (renames cs') \<and> distinct (map fullPath (resolved r'))"
proof -
  let ?cands = "targetCandidates H td P (resolved r) tfs s"
  let ?progress = "OnProgress (fullPath (withParentDirectory H s sd))"
  show ?thesis
  proof (cases "length ?cands = 1")
    case True
    then obtain c where c: "?cands = [c]"
      by (cases ?cands) auto
    then have "c \<in> set ?cands" by simp
    then have "\<not> claimed (resolved r) c"
      unfolding targetCandidates_claimed by simp
    then have notin: "fullPath c \<notin> fullPath ` set (resolved r)"
      by (auto simp: claimed_def)
    have "syncFile H sd td P tfs (r, cs) s =
        (r\<lparr>resolved := resolved r @ [c]\<rparr>, cs @ [RenameFile c (name s), ?progress])"
      using c by (simp add: syncFile_def)
    with assms(1) have r': "r' = r\<lparr>resolved := resolved r @ [c]\<rparr>"
      "cs' = cs @ [RenameFile c (name s), ?progress]"
      by simp_all
    have "resolved r' = pre @ map fst (renames cs')"
      unfolding r' using assms(2) by (simp add: renames_append renames_Cons)
    moreover have "distinct (map fullPath (resolved r'))"
      unfolding r' using assms(3) notin by simp
    ultimately show ?thesis ..
  next
    case False
    then have "resolved r' = resolved r \<and> renames cs' = renames cs"
      using assms(1)
      by (cases "1 < length ?cands") (auto simp: syncFile_def Let_def renames_append renames_Cons)
    with assms(2,3) show ?thesis
      by simp
  qed
qed

lemma foldl_syncFile_resolved:
  assumes "foldl (syncFile H sd td P tfs) (r, cs) files = (r', cs')"
    and "resolved r = pre @ map fst (renames cs)"
    and "distinct (map fullPath (resolved r))"
  shows "resolved r' = pre @ map fst (renames cs') \<and> distinct (map fullPath (resolved r'))"
  using assms
proof (induction files arbitrary: r cs)
  case Nil
  then show ?case by simp
next
  case (Cons s files)
  obtain r1 cs1 where s1: "syncFile H sd td P tfs (r, cs) s = (r1, cs1)"
    by (cases "syncFile H sd td P tfs (r, cs) s")
  note st = syncFile_resolved [OF s1 Cons.prems(2,3)]
  have "resolved r1 = pre @ map fst (renames cs1)" "distinct (map fullPath (resolved r1))"
    using st by blast+
  moreover have "foldl (syncFile H sd td P tfs) (r1, cs1) files = (r', cs')"
    using Cons.prems(1) s1 by simp
  ultimately show ?case
    by (rule Cons.IH [rotated])
qed

lemma syncDir_resolved:
  assumes "syncDir H sd td P (Some r) = Inr (r', cs')"
    and "distinct (map fullPath (resolved r))"
  shows "resolved r' = resolved r @ map fst (renames cs') \<and> distinct (map fullPath (resolved r'))"
proof -
  from assms(1) obtain sds tds where
    f: "foldl (syncFile H sd td P (listFiles tds))
          (r, if \<not> existsSync H td then [Mkdir td] else []) (listFiles sds) = (r', cs')"
    by (auto simp: syncDir_def Let_def split: option.splits if_splits)
  show ?thesis
    by (rule foldl_syncFile_resolved [OF f]) (use assms(2) in auto)
qed

lemma syncDir_None: "syncDir H sd td P None = syncDir H sd td P (Some \<lparr>resolved = [], collisions = []\<rparr>)"
  by (simp add: syncDir_def)

lemma syncNames_step_ok:
  assumes "walk_ok acc"
  shows "walk_ok (syncNames_step H sr tr P acc d)"
proof (cases "snd acc")
  case (Inl e)
  with assms show ?thesis
    by (simp add: syncNames_step_def)
next
  case (Inr r)
  with assms have r: "resolved r = map fst (renames (fst acc))"
    "distinct (map fullPath (resolved r))"
    by (simp_all add: walk_ok_def)
  show ?thesis
  proof (cases "syncDir H (path_join H sr d) (path_join H tr d) P (Some r)")
    case e: (Inl e)
    with Inr assms show ?thesis
      by (simp add: syncNames_step_def walk_ok_def)
  next
    case ok: (Inr p)
    obtain r' cs' where p: "p = (r', cs')" by (cases p)
    note st = syncDir_resolved [OF ok [unfolded p] r(2)]
    have r': "resolved r' = resolved r @ map fst (renames cs')" "distinct (map fullPath (resolved r'))"
      using st by blast+
    have "resolved r' = map fst (renames (fst acc @ cs'))"
      unfolding r'(1) r(1) by (simp add: renames_append)
    with r'(2) have "walk_ok (fst acc @ cs', Inr r')"
      by (simp add: walk_ok_def)
    with Inr ok p show ?thesis
      by (simp add: syncNames_step_def)
  qed
qed

lemma foldl_syncNames_step_ok:
  "walk_ok acc \<Longrightarrow> walk_ok (foldl (syncNames_step H sr tr P) acc ds)"
  by (induction ds arbitrary: acc) (simp_all add: syncNames_step_ok)

lemma syncNames_ok: "walk_ok (syncNames H sr tr P)"
proof (cases "syncDir H sr tr P None")
  case (Inl e)
  then show ?thesis
    by (simp add: syncNames_def walk_ok_def)
next
  case (Inr p)
  obtain r cs where p: "p = (r, cs)" by (cases p)
  have "syncDir H sr tr P (Some \<lparr>resolved = [], collisions = []\<rparr>) = Inr (r, cs)"
    using Inr p by (simp add: syncDir_None)
  note st = syncDir_resolved [OF this]
  have "distinct (map fullPath (resolved \<lparr>resolved = [], collisions = []\<rparr>))"
    by simp
  note st = st [OF this]
  have r: "resolved r = map fst (renames cs)"
    using st by simp
  have "distinct (map fullPath (resolved r))"
    using st by blast
  then have "walk_ok (cs, Inr r)"
    using r by (simp add: walk_ok_def)
  then show ?thesis
    using Inr p by (simp add: syncNames_def foldl_syncNames_step_ok)
qed

lemma resolution_distinct:
  assumes "distinct (map fullPath cl)"
  shows "distinct (map fullPath (cl @ map fst (concat (map rename_entry (resolution H sr tr cl es)))))"
  using assms
proof (induction es arbitrary: cl)
  case Nil
  then show ?case by simp
next
  case (Cons e es)
  obtain k cands where e: "e = (k, cands)" by (cases e)
  show ?case
  proof (cases "pick_longest (filter (\<lambda>c. \<not> claimed cl c) cands)")
    case None
    then show ?thesis
      using Cons.IH [OF Cons.prems] by (simp add: e)
  next
    case (Some c)
    then have "c \<in> set (filter (\<lambda>c. \<not> claimed cl c) cands)"
      by (rule pick_longest_mem)
    then have "fullPath c \<notin> fullPath ` set cl"
      by (auto simp: claimed_def)
    with Cons.prems have "distinct (map fullPath (cl @ [c]))"
      by simp
    from Cons.IH [OF this] Some show ?thesis
      by (simp add: e)
  qed
qed

lemma resolveCollisions_distinct:
  "distinct (map fullPath (map fst (renames (resolveCollisions H sr tr colls postfix))))"
proof -
  have "map fst (renames (resolveCollisions H sr tr colls postfix)) =
        map fst (concat (map rename_entry
          (resolution H sr tr [] (sort_key (\<lambda>entry. byNameLenDesc (fst entry)) colls))))"
    by (simp add: renames_resolveCollisions case_prod_unfold)
  then show ?thesis
    using resolution_distinct [of "[]" H sr tr] by simp
qed

text \<open>
  Each pass alone claims no target file twice. Within the walk of \<open>syncNames\<close> no two
  calls of \<open>renameFile\<close> are on files with the same path, and the files renamed are exactly
  the \<open>resolved\<close> ones; within one pass of \<open>resolveCollisions\<close> no two calls of \<open>renameFile\<close>
  are on files with the same path.
\<close>

theorem no_double_claim_within_each_pass:
  "distinct (map fullPath (map fst (renames (fst (syncNames H sr tr P))))) \<and>
   (\<forall>r. snd (syncNames H sr tr P) = Inr r \<longrightarrow>
        resolved r = map fst (renames (fst (syncNames H sr tr P)))) \<and>
   distinct (map fullPath (map fst (renames (resolveCollisions H sr tr colls postfix))))"
  using syncNames_ok [of H sr tr P] resolveCollisions_distinct [of H sr tr colls postfix]
  by (auto simp: walk_ok_def)

lemmas sync_eval =
  syncNames_def syncNames_step_def syncDir_def listFiles_def syncFile_def targetCandidates_def
  predicate_eval model_eval

lemma double_claim_walk:
  "syncNames double_claim_tree (js ''s'') (js ''t'') areSyncable =
     ([OnProgress (js ''s/abcd.txt''),
       RenameFile (placed (js ''t'') (js ''a_______b.txt'')) (js ''abx''),
       OnProgress (js ''s/abx.txt'')],
      Inr \<lparr>resolved = [placed (js ''t'') (js ''a_______b.txt'')],
           collisions = [(placed (js ''s'') (js ''abcd.txt''),
                          [placed (js ''t'') (js ''a_______b.txt''),
                           placed (js ''t'') (js ''abc.txt'')])]\<rparr>)"
  by (simp add: double_claim_tree_def placed_def sync_eval)

lemma double_claim_resolution:
  "resolveCollisions double_claim_tree (js ''s'') (js ''t'')
     [(placed (js ''s'') (js ''abcd.txt''),
       [placed (js ''t'') (js ''a_______b.txt''), placed (js ''t'') (js ''abc.txt'')])]
     (js ''$collision$'') =
   [RenameFile (placed (js ''t'') (js ''a_______b.txt'')) (js ''abcd $collision$''),
    OnProgress (js ''t/a_______b.txt'')]"
  by (simp add: resolveCollisions_resolution claimed_def placed_def path_eval)

text \<open>
  C1. No target file is to be claimed twice in one run. The code breaks this across its
  two passes: \<open>abcd\<close> matches both target files and is deferred as a collision; \<open>abx\<close> then
  matches \<open>a_______b\<close> alone, which is renamed and resolved. \<open>syncDir\<close> leaves out the
  candidates that are in \<open>resolved\<close>, and \<open>resolveCollisions\<close> leaves out those it has picked
  itself, but it is not given \<open>resolved\<close>: of the two candidates recorded for \<open>abcd\<close> it picks
  the longer stem, \<open>a_______b\<close> again. The second \<open>fs.renameSync\<close> is on a path the first
  has moved away.
\<close>

theorem double_claim_across_passes:
  "renames (main_sync double_claim_tree (js ''s'') (js ''t'') (js ''$collision$'')) =
     [(placed (js ''t'') (js ''a_______b.txt''), js ''abx''),
      (placed (js ''t'') (js ''a_______b.txt''), js ''abcd $collision$'')] \<and>
   \<not> distinct (map fullPath (map fst
         (renames (main_sync double_claim_tree (js ''s'') (js ''t'') (js ''$collision$''))))) \<and>
   fs_ops (main_sync double_claim_tree (js ''s'') (js ''t'') (js ''$collision$'')) =
     [RenameSync (js ''t/a_______b.txt'') (js ''t/abx.txt''),
      RenameSync (js ''t/a_______b.txt'') (js ''t/abcd $collision$.txt'')]"
proof -
  have "main_sync double_claim_tree (js ''s'') (js ''t'') (js ''$collision$'') =
     [OnProgress (js ''s/abcd.txt''),
      RenameFile (placed (js ''t'') (js ''a_______b.txt'')) (js ''abx''),
      OnProgress (js ''s/abx.txt''),
      RenameFile (placed (js ''t'') (js ''a_______b.txt'')) (js ''abcd $collision$''),
      OnProgress (js ''t/a_______b.txt'')]"
    unfolding main_sync_def double_claim_walk
    by (simp add: double_claim_resolution)
  then show ?thesis
    by (simp add: renames_def) (simp add: fs_ops_def renameFile_def placed_def model_eval)
qed

text \<open>The two passes on that tree, each taken alone.\<close>

theorem no_double_claim_within_each_pass_witness:
  "distinct (map fullPath (map fst
      (renames (fst (syncNames double_claim_tree (js ''s'') (js ''t'') areSyncable))))) \<and>
   map fst (renames (fst (syncNames double_claim_tree (js ''s'') (js ''t'') areSyncable))) =
     [placed (js ''t'') (js ''a_______b.txt'')] \<and>
   distinct (map fullPath (map fst
      (renames (resolveCollisions double_claim_tree (js ''s'') (js ''t'')
         [(placed (js ''s'') (js ''abcd.txt''),
           [placed (js ''t'') (js ''a_______b.txt''), placed (js ''t'') (js ''abc.txt'')])]
         (js ''$collision$'')))))"
proof -
  note t = no_double_claim_within_each_pass [where H = double_claim_tree and sr = "js ''s''"
      and tr = "js ''t''" and P = areSyncable and postfix = "js ''$collision$''"
      and colls = "[(placed (js ''s'') (js ''abcd.txt''),
           [placed (js ''t'') (js ''a_______b.txt''), placed (js ''t'') (js ''abc.txt'')])]"]
  have "snd (syncNames double_claim_tree (js ''s'') (js ''t'') areSyncable) =
      Inr \<lparr>resolved = [placed (js ''t'') (js ''a_______b.txt'')],
           collisions = [(placed (js ''s'') (js ''abcd.txt''),
                          [placed (js ''t'') (js ''a_______b.txt''),
                           placed (js ''t'') (js ''abc.txt'')])]\<rparr>"
    unfolding double_claim_walk by simp
  with t have "[placed (js ''t'') (js ''a_______b.txt'')] =
      map fst (renames (fst (syncNames double_claim_tree (js ''s'') (js ''t'') areSyncable)))"
    by fastforce
  with t show ?thesis
    by simp
qed

subsection \<open>Name-aligned trees\<close>

lemma listFiles_names: "listFiles ds = map new_ParsedFile (listed_names ds)"
  by (simp add: listFiles_def listed_names_def)

lemma walk_step_Inl: "foldl (walk_step H P) (cs, Inl e) pairs = (cs, Inl e)"
  by (induction pairs) (simp_all add: walk_step_def)

lemma syncNames_step_walk:
  "syncNames_step H sr tr P acc d = walk_step H P acc (path_join H sr d, path_join H tr d)"
  by (simp add: syncNames_step_def walk_step_def split: sum.splits)

lemma syncNames_walk:
  "syncNames H sr tr P =
     foldl (walk_step H P) ([], Inr \<lparr>resolved = [], collisions = []\<rparr>) (dir_pairs H sr tr)"
proof -
  have m: "foldl (syncNames_step H sr tr P) acc ds =
        foldl (walk_step H P) acc (map (\<lambda>d. (path_join H sr d, path_join H tr d)) ds)" for acc ds
    by (induction ds arbitrary: acc) (simp_all add: syncNames_step_walk)
  show ?thesis
  proof (cases "syncDir H sr tr P None")
    case (Inl e)
    then show ?thesis
      by (simp add: syncNames_def dir_pairs_def walk_step_def syncDir_None walk_step_Inl)
  next
    case (Inr p)
    then show ?thesis
      by (cases p) (simp add: syncNames_def dir_pairs_def walk_step_def syncDir_None m)
  qed
qed

lemma fullPath_placed:
  assumes "file_name n"
  shows "fullPath (placed d n) = (if d = [] then n else d @ CHAR_FORWARD_SLASH # n)"
  using fullPath_describes [OF assms placed_fields(3) [OF assms], of d] placed_fields(1,2) [OF assms, of d]
  by auto

lemma split_at_first:
  assumes "x @ s # a = y @ s # b" "s \<notin> set x" "s \<notin> set y"
  shows "x = y \<and> a = b"
  using assms
proof (induction x arbitrary: y)
  case Nil
  then show ?case by (cases y) auto
next
  case (Cons c x)
  then show ?case by (cases y) auto
qed

lemma fullPath_placed_inj:
  assumes "file_name n" "file_name n'" "fullPath (placed d n) = fullPath (placed d' n')"
  shows "d = d' \<and> n = n'"
proof -
  have sf: "CHAR_FORWARD_SLASH \<notin> set n" "CHAR_FORWARD_SLASH \<notin> set n'"
    using assms(1,2) by (simp_all add: file_name_def)
  have key: "a = b \<and> x = y"
    if "a @ CHAR_FORWARD_SLASH # x = b @ CHAR_FORWARD_SLASH # y"
      "CHAR_FORWARD_SLASH \<notin> set x" "CHAR_FORWARD_SLASH \<notin> set y" for a b x y :: jstring
  proof -
    have "rev x @ CHAR_FORWARD_SLASH # rev a = rev y @ CHAR_FORWARD_SLASH # rev b"
      using arg_cong [OF that(1), of rev] by simp
    moreover have "CHAR_FORWARD_SLASH \<notin> set (rev x)" "CHAR_FORWARD_SLASH \<notin> set (rev y)"
      using that(2,3) by simp_all
    ultimately have "rev x = rev y \<and> rev a = rev b"
      by (rule split_at_first)
    then show ?thesis by simp
  qed
  show ?thesis
  proof (cases "d = []")
    case True
    show ?thesis
    proof (cases "d' = []")
      case True
      with \<open>d = []\<close> assms show ?thesis
        by (simp add: fullPath_placed)
    next
      case False
      with \<open>d = []\<close> assms(3) have "n = d' @ CHAR_FORWARD_SLASH # n'"
        by (simp add: fullPath_placed assms(1,2))
      with sf(1) show ?thesis by simp
    qed
  next
    case False
    show ?thesis
    proof (cases "d' = []")
      case True
      with False assms(3) have "n' = d @ CHAR_FORWARD_SLASH # n"
        by (simp add: fullPath_placed assms(1,2))
      with sf(2) show ?thesis by simp
    next
      case d': False
      with False assms(3) have "d @ CHAR_FORWARD_SLASH # n = d' @ CHAR_FORWARD_SLASH # n'"
        by (simp add: fullPath_placed assms(1,2))
      then show ?thesis
        using sf by (rule key)
    qed
  qed
qed

lemma fs_ops_single [simp]:
  "fs_ops [] = []" "fs_ops [OnProgress p] = []" "fs_ops [Mkdir d] = [MkdirSync d]"
  "fs_ops [RenameFile f m] = renameFile f m" "fs_ops [CopyFile a b] = copyFile a b"
  by (simp_all add: fs_ops_def)

lemma fs_ops_Cons: "fs_ops (c # cs) = perform c @ fs_ops cs"
  by (simp add: fs_ops_def)

lemma copies_single [simp]:
  "copies [] = []" "copies [OnProgress p] = []" "copies [Mkdir d] = []"
  "copies [RenameFile f m] = []" "copies [CopyFile a b] = [(a, b)]"
  by (simp_all add: copies_def)

lemma copies_Cons: "copies (c # cs) = copy_of c @ copies cs"
  by (simp add: copies_def)

lemma aligned_file:
  assumes n: "file_name n"
    and match: "filter (P (new_ParsedFile n)) tfs = [new_ParsedFile n]"
    and fresh: "\<not> claimed (resolved r) (placed (path_join H td []) n)"
  shows "\<exists>cs'. syncFile H sd td P tfs (r, cs) (new_ParsedFile n) =
           (r\<lparr>resolved := resolved r @ [placed (path_join H td []) n]\<rparr>, cs') \<and>
         fs_ops cs' = fs_ops cs \<and> copies cs' = copies cs"
proof -
  let ?c = "placed (path_join H td []) n"
  have cands: "targetCandidates H td P (resolved r) tfs (new_ParsedFile n) = [?c]"
    unfolding targetCandidates_claimed match
    using fresh by (simp add: withParentDirectory_placed [OF n])
  have "name ?c = name (new_ParsedFile n)"
    using placed_fields(4) [OF n] .
  then have idle: "renameFile ?c (name (new_ParsedFile n)) = []"
    by (simp add: renameFile_def)
  show ?thesis
    using cands idle
    by (simp add: syncFile_def fs_ops_append copies_append fs_ops_Cons copies_Cons)
qed

lemma aligned_files:
  assumes "\<forall>n \<in> set ns. file_name n \<and> filter (P (new_ParsedFile n)) tfs = [new_ParsedFile n]"
    and "distinct ns"
    and "\<forall>n \<in> set ns. \<not> claimed (resolved r) (placed (path_join H td []) n)"
  shows "\<exists>cs'. foldl (syncFile H sd td P tfs) (r, cs) (map new_ParsedFile ns) =
           (r\<lparr>resolved := resolved r @ map (placed (path_join H td [])) ns\<rparr>, cs') \<and>
         fs_ops cs' = fs_ops cs \<and> copies cs' = copies cs"
  using assms
proof (induction ns arbitrary: r cs)
  case Nil
  then show ?case by simp
next
  case (Cons n ns)
  let ?D = "path_join H td []"
  let ?r1 = "r\<lparr>resolved := resolved r @ [placed ?D n]\<rparr>"
  have n: "file_name n" "filter (P (new_ParsedFile n)) tfs = [new_ParsedFile n]"
    "\<not> claimed (resolved r) (placed ?D n)"
    using Cons.prems by simp_all
  from aligned_file [where P = P and n = n and tfs = tfs and r = r and H = H and td = td
      and sd = sd and cs = cs, OF n]
  obtain cs1 where
    s1: "syncFile H sd td P tfs (r, cs) (new_ParsedFile n) = (?r1, cs1)"
    and c1: "fs_ops cs1 = fs_ops cs" "copies cs1 = copies cs"
    by blast
  have fresh: "\<forall>m \<in> set ns. \<not> claimed (resolved ?r1) (placed ?D m)"
  proof
    fix m assume m: "m \<in> set ns"
    then have "file_name m" "m \<noteq> n" "\<not> claimed (resolved r) (placed ?D m)"
      using Cons.prems by auto
    moreover have "fullPath (placed ?D n) \<noteq> fullPath (placed ?D m)"
      using fullPath_placed_inj [OF n(1) \<open>file_name m\<close>, of ?D ?D] \<open>m \<noteq> n\<close> by auto
    ultimately show "\<not> claimed (resolved ?r1) (placed ?D m)"
      by (auto simp: claimed_def)
  qed
  have "\<forall>n \<in> set ns. file_name n \<and> filter (P (new_ParsedFile n)) tfs = [new_ParsedFile n]"
    "distinct ns"
    using Cons.prems by simp_all
  from Cons.IH [where r = ?r1 and cs = cs1, OF this fresh] obtain cs' where
    "foldl (syncFile H sd td P tfs) (?r1, cs1) (map new_ParsedFile ns) =
       (?r1\<lparr>resolved := resolved ?r1 @ map (placed ?D) ns\<rparr>, cs')"
    "fs_ops cs' = fs_ops cs1" "copies cs' = copies cs1"
    by blast
  then show ?case
    using s1 c1 by simp
qed

lemma aligned_syncDir:
  assumes "pair_aligned H P (sd, td)"
    and "\<forall>f \<in> set (resolved r). \<forall>n. file_name n \<longrightarrow> fullPath f \<noteq> fullPath (placed (path_join H td []) n)"
  shows "\<exists>S cs'. readdirSync H sd = Some S \<and> (\<forall>n \<in> set (listed_names S). file_name n) \<and>
           syncDir H sd td P (Some r) =
             Inr (r\<lparr>resolved := resolved r @ map (placed (path_join H td [])) (listed_names S)\<rparr>, cs') \<and>
           fs_ops cs' = [] \<and> copies cs' = []"
proof -
  from assms(1) obtain S T where
    rd: "readdirSync H sd = Some S" "readdirSync H td = Some T" "existsSync H td"
    and ok: "\<forall>n \<in> set (listed_names S).
               file_name n \<and> filter (P (new_ParsedFile n)) (listFiles T) = [new_ParsedFile n]"
      "distinct (listed_names S)"
    by (auto simp: pair_aligned_def split: option.splits)
  have fresh: "\<forall>n \<in> set (listed_names S). \<not> claimed (resolved r) (placed (path_join H td []) n)"
    using assms(2) ok(1) by (auto simp: claimed_def)
  from aligned_files [where P = P and tfs = "listFiles T" and ns = "listed_names S" and r = r
      and H = H and td = td and sd = sd and cs = "[]", OF ok fresh]
  obtain cs' where
    "foldl (syncFile H sd td P (listFiles T)) (r, []) (map new_ParsedFile (listed_names S)) =
       (r\<lparr>resolved := resolved r @ map (placed (path_join H td [])) (listed_names S)\<rparr>, cs')"
    "fs_ops cs' = []" "copies cs' = []"
    by auto
  then show ?thesis
    using rd ok(1) by (simp add: syncDir_def listFiles_names [of S])
qed

lemma aligned_walk:
  assumes "\<forall>pair \<in> set pairs. pair_aligned H P pair"
    and "distinct (map (\<lambda>pair. path_join H (snd pair) []) pairs)"
    and "\<forall>f \<in> set (resolved r). \<exists>D n. D \<in> U \<and> file_name n \<and> f = placed D n"
    and "U \<inter> set (map (\<lambda>pair. path_join H (snd pair) []) pairs) = {}"
    and "collisions r = []" "fs_ops cs = []" "copies cs = []"
  shows "\<exists>r' cs'. foldl (walk_step H P) (cs, Inr r) pairs = (cs', Inr r') \<and>
           collisions r' = [] \<and> fs_ops cs' = [] \<and> copies cs' = []"
  using assms
proof (induction pairs arbitrary: r cs U)
  case Nil
  then show ?case by simp
next
  case (Cons pair pairs)
  obtain sd td where pair: "pair = (sd, td)" by (cases pair)
  let ?D = "path_join H td []"
  have al: "pair_aligned H P (sd, td)"
    using Cons.prems(1) pair by simp
  have notin: "?D \<notin> U"
    using Cons.prems(4) pair by auto
  have fresh: "\<forall>f \<in> set (resolved r). \<forall>n. file_name n \<longrightarrow> fullPath f \<noteq> fullPath (placed ?D n)"
  proof (intro ballI allI impI)
    fix f n assume f: "f \<in> set (resolved r)" and n: "file_name n"
    from Cons.prems(3) f obtain D' n' where d: "D' \<in> U" "file_name n'" "f = placed D' n'"
      by blast
    with notin have "D' \<noteq> ?D" by auto
    then show "fullPath f \<noteq> fullPath (placed ?D n)"
      using fullPath_placed_inj [OF d(2) n, of D' ?D] d(3) by auto
  qed
  from aligned_syncDir [OF al fresh] obtain S cs1 where
    S: "\<forall>n \<in> set (listed_names S). file_name n"
    and sd: "syncDir H sd td P (Some r) =
        Inr (r\<lparr>resolved := resolved r @ map (placed ?D) (listed_names S)\<rparr>, cs1)"
    and c1: "fs_ops cs1 = []" "copies cs1 = []"
    by blast
  let ?r1 = "r\<lparr>resolved := resolved r @ map (placed ?D) (listed_names S)\<rparr>"
  have step: "walk_step H P (cs, Inr r) pair = (cs @ cs1, Inr ?r1)"
    using sd pair by (simp add: walk_step_def)
  have 1: "\<forall>pair \<in> set pairs. pair_aligned H P pair"
    using Cons.prems(1) by simp
  have 2: "distinct (map (\<lambda>pair. path_join H (snd pair) []) pairs)"
    using Cons.prems(2) by simp
  have 3: "\<forall>f \<in> set (resolved ?r1). \<exists>D n. D \<in> insert ?D U \<and> file_name n \<and> f = placed D n"
  proof
    fix f assume "f \<in> set (resolved ?r1)"
    then consider "f \<in> set (resolved r)" | n where "n \<in> set (listed_names S)" "f = placed ?D n"
      by auto
    then show "\<exists>D n. D \<in> insert ?D U \<and> file_name n \<and> f = placed D n"
    proof cases
      case 1
      with Cons.prems(3) obtain D' n' where "D' \<in> U" "file_name n'" "f = placed D' n'"
        by blast
      then show ?thesis by blast
    next
      case 2
      with S show ?thesis by blast
    qed
  qed
  have 4: "insert ?D U \<inter> set (map (\<lambda>pair. path_join H (snd pair) []) pairs) = {}"
    using Cons.prems(2,4) pair by auto
  have 5: "collisions ?r1 = []" "fs_ops (cs @ cs1) = []" "copies (cs @ cs1) = []"
    using Cons.prems(5,6,7) c1 by (simp_all add: fs_ops_append copies_append)
  from Cons.IH [OF 1 2 3 4 5] show ?case
    using step by simp
qed

text \<open>
  C7, as the code has it. When the trees are aligned one to one, \<open>syncNames\<close> reaches the
  file system with nothing (every \<open>renameFile\<close> is on a file that bears the name
  already), calls \<open>copyFile\<close> never, and returns no collision.
\<close>

theorem aligned_sync_is_idle:
  assumes "aligned_one_to_one H P sourceRoot targetRoot"
  shows "fs_ops (fst (syncNames H sourceRoot targetRoot P)) = [] \<and>
         copies (fst (syncNames H sourceRoot targetRoot P)) = [] \<and>
         (\<exists>r. snd (syncNames H sourceRoot targetRoot P) = Inr r \<and> collisions r = [])"
proof -
  have "\<exists>r' cs'. foldl (walk_step H P) ([], Inr \<lparr>resolved = [], collisions = []\<rparr>)
            (dir_pairs H sourceRoot targetRoot) = (cs', Inr r') \<and>
           collisions r' = [] \<and> fs_ops cs' = [] \<and> copies cs' = []"
    by (rule aligned_walk [where U = "{}"]) (use assms in \<open>simp_all add: aligned_one_to_one_def\<close>)
  then show ?thesis
    unfolding syncNames_walk by auto
qed

theorem aligned_sync_is_idle_witness:
  "aligned_one_to_one aligned_tree areSyncable (js ''s'') (js ''t'') \<and>
   fs_ops (fst (syncNames aligned_tree (js ''s'') (js ''t'') areSyncable)) = [] \<and>
   copies (fst (syncNames aligned_tree (js ''s'') (js ''t'') areSyncable)) = [] \<and>
   (\<exists>r. snd (syncNames aligned_tree (js ''s'') (js ''t'') areSyncable) = Inr r \<and> collisions r = [])"
proof -
  have a: "aligned_one_to_one aligned_tree areSyncable (js ''s'') (js ''t'')"
    by (simp add: aligned_one_to_one_def pair_aligned_def dir_pairs_def listed_names_def
        file_name_def aligned_tree_def dir_entry_def sync_eval)
  from aligned_sync_is_idle [OF a] a show ?thesis
    by blast
qed

text \<open>
  C7 does not hold for trees that are merely name-aligned. With \<open>a.txt\<close> and \<open>a.png\<close> on
  both sides, each source file has its namesake, but the predicate compares stems:
  each source file matches both target files, and both are deferred as collisions.
\<close>

theorem same_stem_collides:
  "name_aligned same_stem_tree areSyncable (js ''s'') (js ''t'') \<and>
   syncNames same_stem_tree (js ''s'') (js ''t'') areSyncable =
     ([OnProgress (js ''s/a.txt''), OnProgress (js ''s/a.png'')],
      Inr \<lparr>resolved = [],
           collisions =
             [(placed (js ''s'') (js ''a.txt''),
               [placed (js ''t'') (js ''a.txt''), placed (js ''t'') (js ''a.png'')]),
              (placed (js ''s'') (js ''a.png''),
               [placed (js ''t'') (js ''a.txt''), placed (js ''t'') (js ''a.png'')])]\<rparr>)"
proof -
  have "name_aligned same_stem_tree areSyncable (js ''s'') (js ''t'')"
    by (simp add: name_aligned_def dir_pairs_def base_def same_stem_tree_def sync_eval)
  moreover have "syncNames same_stem_tree (js ''s'') (js ''t'') areSyncable =
     ([OnProgress (js ''s/a.txt''), OnProgress (js ''s/a.png'')],
      Inr \<lparr>resolved = [],
           collisions =
             [(placed (js ''s'') (js ''a.txt''),
               [placed (js ''t'') (js ''a.txt''), placed (js ''t'') (js ''a.png'')]),
              (placed (js ''s'') (js ''a.png''),
               [placed (js ''t'') (js ''a.txt''), placed (js ''t'') (js ''a.png'')])]\<rparr>)"
    by (simp add: same_stem_tree_def placed_def sync_eval Let_def)
  ultimately show ?thesis ..
qed

subsection \<open>Where the writes go\<close>













































subsection \<open>A target file that is already resolved\<close>

text \<open>
  C10 does not hold for a target file that is already in \<open>resolved\<close>. The stem of \<open>-_-.txt\<close>
  cleans to the empty string and the predicate holds for it against \<open>xyz.txt\<close>; but
  \<open>abc.txt\<close>, listed first, has taken it as its only candidate, so \<open>xyz.txt\<close> is left
  without a candidate and is copied.
\<close>

theorem resolved_target_is_no_candidate:
  "filter in_class (name (new_ParsedFile (js ''-_-.txt''))) = [] \<and>
   js ''-_-.txt'' \<in> set (listed_names (the (readdirSync claimed_tree (js ''t'')))) \<and>
   js ''xyz.txt'' \<in> set (listed_names (the (readdirSync claimed_tree (js ''s'')))) \<and>
   areSyncable (new_ParsedFile (js ''xyz.txt'')) (new_ParsedFile (js ''-_-.txt'')) \<and>
   syncDir claimed_tree (js ''s'') (js ''t'') areSyncable None =
     Inr (\<lparr>resolved = [placed (js ''t'') (js ''-_-.txt'')], collisions = []\<rparr>,
          [RenameFile (placed (js ''t'') (js ''-_-.txt'')) (js ''abc''),
           OnProgress (js ''s/abc.txt''),
           CopyFile (placed (js ''s'') (js ''xyz.txt'')) (placed (js ''t'') (js ''xyz.txt'')),
           OnProgress (js ''s/xyz.txt'')]) \<and>
   targetCandidates claimed_tree (js ''t'') areSyncable [placed (js ''t'') (js ''-_-.txt'')]
     [new_ParsedFile (js ''-_-.txt'')] (new_ParsedFile (js ''xyz.txt'')) = []"
  by (simp add: claimed_tree_def placed_def listed_names_def sync_eval in_class_def)

subsection \<open>The round trip of \<open>path.parse\<close> and \<open>path.format\<close>\<close>

lemma split_at_last:
  assumes "a @ s # x = b @ s # y" "s \<notin> set x" "s \<notin> set y"
  shows "a = b \<and> x = y"
proof -
  have "rev x @ s # rev a = rev y @ s # rev b"
    using arg_cong [OF assms(1), of rev] by simp
  moreover have "s \<notin> set (rev x)" "s \<notin> set (rev y)"
    using assms(2,3) by simp_all
  ultimately have "rev x = rev y \<and> rev a = rev b"
    by (rule split_at_first)
  then show ?thesis by simp
qed

lemma scan_back_skip:
  assumes "\<forall>i. k' \<le> i \<and> i < k \<longrightarrow> p ! i = CHAR_FORWARD_SLASH" "matchedSlash st"
    "k' \<le> k" "start \<le> k'"
  shows "scan_back p start k st = scan_back p start k' st"
  using assms
proof (induction k)
  case 0
  then show ?case by simp
next
  case (Suc i)
  show ?case
  proof (cases "k' = Suc i")
    case True
    then show ?thesis by (simp only:)
  next
    case False
    with Suc.prems have le: "k' \<le> i" and sl: "p ! i = CHAR_FORWARD_SLASH"
      by auto
    then have "\<not> i < start"
      using Suc.prems(4) by simp
    then have "scan_back p start (Suc i) st = scan_back p start i st"
      using sl Suc.prems(2) by simp
    also have "\<dots> = scan_back p start k' st"
      using Suc.IH Suc.prems le by simp
    finally show ?thesis .
  qed
qed

lemma scan_segment:
  assumes "slash_free n" "n \<noteq> []" "set suf \<subseteq> {CHAR_FORWARD_SLASH}" "start \<le> length pre"
  shows "scan_back (pre @ n @ suf) start (length (pre @ n @ suf)) scan_init =
         scan_back (pre @ n @ suf) start (length pre)
           (shift (length pre) (scan_back n 0 (length n) scan_init))"
proof -
  let ?p = "pre @ n @ suf"
  have sl: "\<forall>i. length pre + length n \<le> i \<and> i < length ?p \<longrightarrow> ?p ! i = CHAR_FORWARD_SLASH"
  proof (intro allI impI)
    fix i assume i: "length pre + length n \<le> i \<and> i < length ?p"
    then have "\<not> i < length pre" "\<not> i - length pre < length n"
      by auto
    then have "?p ! i = suf ! (i - length pre - length n)"
      by (simp add: nth_append)
    moreover have "suf ! (i - length pre - length n) \<in> set suf"
      using i by (intro nth_mem) auto
    ultimately show "?p ! i = CHAR_FORWARD_SLASH"
      using assms(3) by auto
  qed
  have "scan_back ?p start (length ?p) scan_init =
        scan_back ?p start (length pre + length n) scan_init"
    by (rule scan_back_skip [OF sl]) (use assms(4) in \<open>simp_all add: scan_init_def\<close>)
  also have "scan_back ?p start (length pre + length n) scan_init =
      scan_back ?p start (length pre + length n) (shift (length pre) scan_init)"
    by (simp add: shift_init)
  also have "\<dots> = scan_back ?p start (length pre) (shift (length pre) (scan_back n 0 (length n) scan_init))"
    by (rule scan_back_shift [OF assms(1) _ _ assms(4)]) (simp_all add: scanned_def)
  finally show ?thesis .
qed

lemma str_slice_append:
  "a \<le> b \<Longrightarrow> b \<le> c \<Longrightarrow> str_slice p a b @ str_slice p b c = str_slice p a c"
proof -
  assume ab: "a \<le> b" and bc: "b \<le> c"
  have "take (b - a) (drop a p) @ take (c - b) (drop (b - a) (drop a p)) =
        take ((b - a) + (c - b)) (drop a p)"
    by (simp add: take_add)
  then show ?thesis
    using ab bc by (simp add: str_slice_def)
qed

lemma str_slice_segment:
  "str_slice (pre @ n @ suf) (length pre) (length pre + length n) = n"
  by (simp add: str_slice_def)

text \<open>The base name that \<open>path.parse\<close> reads off the final state of the scan.\<close>

lemma base_of_scan:
  assumes sc: "scanned n 0 st0" and n: "n \<noteq> []"
    and st: "startDot st = startDot (shift (length pre) st0)" "endPos st = endPos (shift (length pre) st0)"
      "preDotState st = preDotState st0"
  shows "(if endPos st = -1 then []
          else if (startDot st = -1 \<or> preDotState st = 0 \<or>
                   (preDotState st = 1 \<and> startDot st = endPos st - 1 \<and> startDot st = sp))
               then str_slice (pre @ n @ suf) (length pre) (nat (endPos st))
               else str_slice (pre @ n @ suf) (length pre) (nat (startDot st))) @
         (if endPos st = -1 \<or> (startDot st = -1 \<or> preDotState st = 0 \<or>
                   (preDotState st = 1 \<and> startDot st = endPos st - 1 \<and> startDot st = sp))
          then []
          else str_slice (pre @ n @ suf) (nat (startDot st)) (nat (endPos st))) = n"
proof -
  have e: "endPos st0 = int (length n)" and sd: "startDot st0 = -1 \<or> (0 \<le> startDot st0 \<and> startDot st0 < int (length n))"
    using sc n by (auto simp: scanned_def scan_init_def)
  have e': "endPos st = int (length pre + length n)"
    using st(2) e by (simp add: shift_def)
  have ne: "nat (endPos st) = length pre + length n"
    using e' by simp
  have whole: "str_slice (pre @ n @ suf) (length pre) (nat (endPos st)) = n"
    unfolding ne by (rule str_slice_segment)
  show ?thesis
  proof (cases "startDot st0 = -1")
    case True
    then have "startDot st = -1"
      using st(1) by (simp add: shift_def)
    then show ?thesis
      using whole e' by simp
  next
    case False
    with sd have b: "0 \<le> startDot st0" "startDot st0 < int (length n)" by auto
    then have d': "startDot st = startDot st0 + int (length pre)"
      using st(1) False by (simp add: shift_def)
    have "str_slice (pre @ n @ suf) (length pre) (nat (startDot st)) @
          str_slice (pre @ n @ suf) (nat (startDot st)) (nat (endPos st)) =
          str_slice (pre @ n @ suf) (length pre) (nat (endPos st))"
      by (rule str_slice_append) (use b d' e' in auto)
    then show ?thesis
      using whole e' by auto
  qed
qed

lemma parse_base:
  assumes "p \<noteq> []"
  shows "name (path_parse p) @ ext (path_parse p) =
         parsed_base p
           (if startPart (scan_back p (if p ! 0 = CHAR_FORWARD_SLASH then 1 else 0) (length p) scan_init) = 0 \<and>
               p ! 0 = CHAR_FORWARD_SLASH
            then 1
            else startPart (scan_back p (if p ! 0 = CHAR_FORWARD_SLASH then 1 else 0) (length p) scan_init))
           (scan_back p (if p ! 0 = CHAR_FORWARD_SLASH then 1 else 0) (length p) scan_init)"
  using assms by (simp add: path_parse_def Let_def parsed_base_def)

lemma parse_root_dir:
  assumes "p \<noteq> []"
  shows "root (path_parse p) = (if p ! 0 = CHAR_FORWARD_SLASH then [CHAR_FORWARD_SLASH] else [])"
    and "dir (path_parse p) =
      (if startPart (scan_back p (if p ! 0 = CHAR_FORWARD_SLASH then 1 else 0) (length p) scan_init) > 0
       then str_slice p 0
         (startPart (scan_back p (if p ! 0 = CHAR_FORWARD_SLASH then 1 else 0) (length p) scan_init) - 1)
       else if p ! 0 = CHAR_FORWARD_SLASH then [CHAR_FORWARD_SLASH] else [])"
  using assms by (simp_all add: path_parse_def Let_def)

lemma parsed_base_segment:
  assumes "scanned n 0 st0" "n \<noteq> []"
    and "startDot st = startDot (shift (length pre) st0)" "endPos st = endPos (shift (length pre) st0)"
      "preDotState st = preDotState st0"
  shows "parsed_base (pre @ n @ suf) (length pre) st = n"
  unfolding parsed_base_def
  by (rule base_of_scan [OF assms])

lemma format_parse_bare_suf:
  assumes "slash_free n" "n \<noteq> []" "set suf \<subseteq> {CHAR_FORWARD_SLASH}"
  shows "path_format (path_parse (n @ suf)) = n"
proof -
  let ?p = "n @ suf"
  let ?sn = "scan_back n 0 (length n) scan_init"
  have sc: "scanned n 0 ?sn"
    by (rule scan_bare [OF assms(1)])
  have na: "?p ! 0 \<noteq> CHAR_FORWARD_SLASH"
    using bare_not_absolute [OF assms(1,2)] assms(2) by (simp add: nth_append)
  have st: "scan_back ?p 0 (length ?p) scan_init = shift 0 ?sn"
    using scan_segment [OF assms, of 0 "[]"] by simp
  have sp: "startPart (shift 0 ?sn) = 0"
    using sc assms(2) by (simp add: shift_def scanned_def)
  have ne: "?p \<noteq> []"
    using assms(2) by simp
  have "name (path_parse ?p) @ ext (path_parse ?p) = parsed_base ([] @ n @ suf) (length ([] :: jstring)) (shift 0 ?sn)"
    using parse_base [OF ne] na st sp by simp
  also have "\<dots> = n"
    by (rule parsed_base_segment [OF sc assms(2)]) (simp_all add: shift_def)
  finally have b: "name (path_parse ?p) @ ext (path_parse ?p) = n" .
  have "root (path_parse ?p) = []" "dir (path_parse ?p) = []"
    using parse_root_dir [OF ne] na st sp by simp_all
  with b show ?thesis
    by (simp add: path_format_def)
qed

lemma format_parse_root_suf:
  assumes "slash_free n" "n \<noteq> []" "set suf \<subseteq> {CHAR_FORWARD_SLASH}"
  shows "path_format (path_parse (CHAR_FORWARD_SLASH # n @ suf)) = CHAR_FORWARD_SLASH # n"
proof -
  let ?p = "CHAR_FORWARD_SLASH # n @ suf"
  let ?sn = "scan_back n 0 (length n) scan_init"
  have sc: "scanned n 0 ?sn"
    by (rule scan_bare [OF assms(1)])
  have st: "scan_back ?p 1 (length ?p) scan_init = shift 1 ?sn"
    using scan_segment [OF assms, of 1 "[CHAR_FORWARD_SLASH]"] by simp
  have sp: "startPart (shift 1 ?sn) = 0"
    using sc assms(2) by (simp add: shift_def scanned_def)
  have ne: "?p \<noteq> []" by simp
  have "name (path_parse ?p) @ ext (path_parse ?p) =
      parsed_base ([CHAR_FORWARD_SLASH] @ n @ suf) (length [CHAR_FORWARD_SLASH]) (shift 1 ?sn)"
    using parse_base [OF ne] st sp by simp
  also have "\<dots> = n"
    by (rule parsed_base_segment [OF sc assms(2)]) (simp_all add: shift_def)
  finally have b: "name (path_parse ?p) @ ext (path_parse ?p) = n" .
  have "root (path_parse ?p) = [CHAR_FORWARD_SLASH]" "dir (path_parse ?p) = [CHAR_FORWARD_SLASH]"
    using parse_root_dir [OF ne] st sp by simp_all
  with b show ?thesis
    by (simp add: path_format_def)
qed

lemma format_parse_dir_suf:
  assumes "slash_free n" "n \<noteq> []" "set suf \<subseteq> {CHAR_FORWARD_SLASH}" "D \<noteq> []"
  shows "path_format (path_parse (D @ CHAR_FORWARD_SLASH # n @ suf)) =
         (if D = [CHAR_FORWARD_SLASH] then CHAR_FORWARD_SLASH # n else D @ CHAR_FORWARD_SLASH # n)"
proof -
  let ?pre = "D @ [CHAR_FORWARD_SLASH]"
  let ?p = "D @ CHAR_FORWARD_SLASH # n @ suf"
  let ?start = "if ?p ! 0 = CHAR_FORWARD_SLASH then 1 else 0 :: nat"
  let ?sn = "scan_back n 0 (length n) scan_init"
  let ?st = "(shift (Suc (length D)) ?sn)\<lparr>startPart := Suc (length D)\<rparr>"
  have sc: "scanned n 0 ?sn"
    by (rule scan_bare [OF assms(1)])
  have hd: "?p ! 0 = D ! 0"
    using assms(4) by (simp add: nth_append)
  have le: "?start \<le> length D"
    using assms(4) by (cases D) auto
  then have le': "?start \<le> length ?pre" by simp
  have "scan_back (?pre @ n @ suf) ?start (length (?pre @ n @ suf)) scan_init =
        scan_back (?pre @ n @ suf) ?start (length ?pre) (shift (length ?pre) ?sn)"
    by (rule scan_segment [OF assms(1,2,3) le'])
  moreover have "\<not> matchedSlash (shift (length ?pre) ?sn)"
    using sc assms(2) by (simp add: scanned_def shift_def)
  ultimately have st: "scan_back ?p ?start (length ?p) scan_init = ?st"
    using le by (simp add: nth_append)
  have ne: "?p \<noteq> []" by simp
  have "name (path_parse ?p) @ ext (path_parse ?p) = parsed_base (?pre @ n @ suf) (length ?pre) ?st"
    using parse_base [OF ne] unfolding st by simp
  also have "\<dots> = n"
    by (rule parsed_base_segment [OF sc assms(2)]) (simp_all add: shift_def)
  finally have b: "name (path_parse ?p) @ ext (path_parse ?p) = n" .
  have r: "root (path_parse ?p) = (if D ! 0 = CHAR_FORWARD_SLASH then [CHAR_FORWARD_SLASH] else [])"
    using parse_root_dir(1) [OF ne] hd by simp
  have d: "dir (path_parse ?p) = D"
    using parse_root_dir(2) [OF ne] unfolding st by (simp add: str_slice_def)
  show ?thesis
    using b r d assms(4) by (auto simp: path_format_def)
qed

lemma parse_all_separators:
  assumes "p \<noteq> []" "set p \<subseteq> {CHAR_FORWARD_SLASH}"
  shows "path_parse p =
         \<lparr>root = [CHAR_FORWARD_SLASH], dir = [CHAR_FORWARD_SLASH], name = [], ext = []\<rparr>"
proof -
  have all: "\<forall>i. 1 \<le> i \<and> i < length p \<longrightarrow> p ! i = CHAR_FORWARD_SLASH"
    using assms(2) nth_mem by fastforce
  have h: "p ! 0 = CHAR_FORWARD_SLASH"
    using assms nth_mem [of 0 p] by fastforce
  have le: "1 \<le> length p"
    using assms(1) by (cases p) simp_all
  have "scan_back p 1 (length p) scan_init = scan_back p 1 1 scan_init"
    by (rule scan_back_skip [OF all _ le]) (simp_all add: scan_init_def)
  then have st: "scan_back p (Suc 0) (length p) scan_init = scan_init"
    by simp
  show ?thesis
    using assms(1) h by (simp add: path_parse_def Let_def st) (simp add: scan_init_def)
qed

lemma last_component:
  assumes "\<not> set p \<subseteq> {CHAR_FORWARD_SLASH}"
  shows "\<exists>pre n suf. p = pre @ n @ suf \<and> slash_free n \<and> n \<noteq> [] \<and>
           set suf \<subseteq> {CHAR_FORWARD_SLASH} \<and> (pre = [] \<or> (\<exists>D. pre = D @ [CHAR_FORWARD_SLASH]))"
proof -
  define s where "s = (\<lambda>c. c = CHAR_FORWARD_SLASH)"
  define t where "t = (\<lambda>c. c \<noteq> CHAR_FORWARD_SLASH)"
  define a where "a = takeWhile s (rev p)"
  define r where "r = dropWhile s (rev p)"
  define b where "b = takeWhile t r"
  define c where "c = dropWhile t r"
  have "rev p = a @ r"
    unfolding a_def r_def by simp
  moreover have "r = b @ c"
    unfolding b_def c_def by simp
  ultimately have "rev p = a @ b @ c"
    by simp
  then have "rev (rev p) = rev (a @ b @ c)"
    by (rule arg_cong)
  then have p: "p = rev c @ rev b @ rev a"
    by simp
  have "\<exists>x\<in>set (rev p). \<not> s x"
    using assms unfolding s_def by auto
  then have r: "r \<noteq> []"
    unfolding r_def by (simp add: dropWhile_eq_Nil_conv)
  then have "\<not> s (hd r)"
    unfolding r_def by (rule hd_dropWhile)
  then have "t (hd r)"
    unfolding s_def t_def .
  with r have "b \<noteq> []"
    unfolding b_def by (cases r) simp_all
  then have n: "rev b \<noteq> []"
    by simp
  have "\<forall>x\<in>set b. t x"
    unfolding b_def by (meson set_takeWhileD)
  then have sf: "slash_free (rev b)"
    unfolding slash_free_def t_def by auto
  have "\<forall>x\<in>set a. s x"
    unfolding a_def by (meson set_takeWhileD)
  then have suf: "set (rev a) \<subseteq> {CHAR_FORWARD_SLASH}"
    unfolding s_def by auto
  have pre: "rev c = [] \<or> (\<exists>D. rev c = D @ [CHAR_FORWARD_SLASH])"
  proof (cases c)
    case Nil
    then show ?thesis by simp
  next
    case (Cons e es)
    then have "c \<noteq> []" by simp
    then have "\<not> t (hd c)"
      unfolding c_def by (rule hd_dropWhile)
    with Cons have "e = CHAR_FORWARD_SLASH"
      unfolding t_def by simp
    with Cons show ?thesis by simp
  qed
  show ?thesis
    using p sf n suf pre by (intro exI [of _ "rev c"] exI [of _ "rev b"] exI [of _ "rev a"] conjI)
qed

lemma scan_back_no_dot:
  assumes "CHAR_DOT \<notin> set p" "k \<le> length p" "startDot st = -1"
  shows "startDot (scan_back p start k st) = -1"
  using assms(2,3)
proof (induction k arbitrary: st)
  case 0
  then show ?case by simp
next
  case (Suc k)
  have "p ! k \<noteq> CHAR_DOT"
    using assms(1) Suc.prems(1) by (metis nth_mem Suc_le_lessD)
  then have "startDot (scan_char (p ! k) k st) = -1"
    using Suc.prems(2) by (simp add: scan_char_def Let_def)
  then show ?case
    using Suc by simp
qed

lemma parse_no_dot:
  assumes "CHAR_DOT \<notin> set p"
  shows "ext (path_parse p) = []"
  using scan_back_no_dot [OF assms, of "length p" scan_init]
  by (simp add: path_parse_def Let_def scan_init_def)

lemma format_parse_cases:
  "path_format (path_parse []) = []"
  "p \<noteq> [] \<Longrightarrow> set p \<subseteq> {CHAR_FORWARD_SLASH} \<Longrightarrow> path_format (path_parse p) = [CHAR_FORWARD_SLASH]"
  by (simp_all add: parse_all_separators) (simp_all add: path_parse_def path_format_def)

lemma well_formed_separators:
  assumes "p \<noteq> []" "set p \<subseteq> {CHAR_FORWARD_SLASH}"
  shows "well_formed p \<longleftrightarrow> p = [CHAR_FORWARD_SLASH]"
proof -
  have "last p \<in> set p"
    using assms(1) by simp
  then have "last p = CHAR_FORWARD_SLASH"
    using assms(2) by auto
  then show ?thesis
    using assms(1) by (simp add: well_formed_def)
qed

lemma last_segment:
  assumes "slash_free n" "n \<noteq> []" "set suf \<subseteq> {CHAR_FORWARD_SLASH}"
  shows "last (pre @ n @ suf) \<noteq> CHAR_FORWARD_SLASH \<longleftrightarrow> suf = []"
proof (cases "suf = []")
  case True
  have "last n \<in> set n" using assms(2) by simp
  then have "last n \<noteq> CHAR_FORWARD_SLASH"
    using assms(1) by (auto simp: slash_free_def)
  then show ?thesis
    using True assms(2) by simp
next
  case False
  then have "last suf \<in> set suf" by simp
  then have "last suf = CHAR_FORWARD_SLASH"
    using assms(3) by auto
  then show ?thesis
    using False by simp
qed

lemma format_parse_segment:
  assumes "slash_free n" "n \<noteq> []" "set suf \<subseteq> {CHAR_FORWARD_SLASH}"
    and "pre = [] \<or> (\<exists>D. pre = D @ [CHAR_FORWARD_SLASH])"
  shows "path_format (path_parse (pre @ n @ suf)) = pre @ n @ suf \<longleftrightarrow> well_formed (pre @ n @ suf)"
proof -
  obtain c cs where n: "n = c # cs" "c \<noteq> CHAR_FORWARD_SLASH"
    using assms(1,2) by (cases n) (auto simp: slash_free_def)
  have cs: "CHAR_FORWARD_SLASH \<notin> set cs"
    using assms(1) n by (simp add: slash_free_def)
  have last: "last (pre @ n @ suf) \<noteq> CHAR_FORWARD_SLASH \<longleftrightarrow> suf = []"
    by (rule last_segment [OF assms(1,2,3)])
  consider (bare) "pre = []" | (root) "pre = [CHAR_FORWARD_SLASH]"
    | (dir) D where "D \<noteq> []" "pre = D @ [CHAR_FORWARD_SLASH]"
    using assms(4) by (cases "pre = []") auto
  then show ?thesis
  proof cases
    case bare
    have "path_format (path_parse (n @ suf)) = n"
      by (rule format_parse_bare_suf [OF assms(1,2,3)])
    moreover have "well_formed (n @ suf) \<longleftrightarrow> suf = []"
      using last n unfolding bare well_formed_def by simp
    ultimately show ?thesis
      unfolding bare by simp
  next
    case root
    have "path_format (path_parse (CHAR_FORWARD_SLASH # n @ suf)) = CHAR_FORWARD_SLASH # n"
      by (rule format_parse_root_suf [OF assms(1,2,3)])
    moreover have "well_formed (CHAR_FORWARD_SLASH # n @ suf) \<longleftrightarrow> suf = []"
      using last n unfolding root well_formed_def by simp
    ultimately show ?thesis
      unfolding root by simp
  next
    case dir
    have f: "path_format (path_parse (D @ CHAR_FORWARD_SLASH # n @ suf)) =
         (if D = [CHAR_FORWARD_SLASH] then CHAR_FORWARD_SLASH # n else D @ CHAR_FORWARD_SLASH # n)"
      by (rule format_parse_dir_suf [OF assms(1,2,3) dir(1)])
    have l: "last (D @ CHAR_FORWARD_SLASH # n @ suf) \<noteq> CHAR_FORWARD_SLASH \<longleftrightarrow> suf = []"
      using last unfolding dir by simp
    show ?thesis
    proof (cases "D = [CHAR_FORWARD_SLASH]")
      case True
      have "\<not> well_formed (CHAR_FORWARD_SLASH # CHAR_FORWARD_SLASH # n @ suf)"
        using l assms(1) unfolding True well_formed_def
        by (cases "suf = []") (simp_all add: slash_free_def)
      moreover have "CHAR_FORWARD_SLASH # n \<noteq> CHAR_FORWARD_SLASH # CHAR_FORWARD_SLASH # n @ suf"
        using n by simp
      ultimately show ?thesis
        using f unfolding dir True by simp
    next
      case False
      obtain d ds where D: "D = d # ds"
        using dir(1) by (cases D) auto
      have "\<not> (take 2 (D @ CHAR_FORWARD_SLASH # n @ suf) = [CHAR_FORWARD_SLASH, CHAR_FORWARD_SLASH] \<and>
                CHAR_FORWARD_SLASH \<notin> set (drop 2 (D @ CHAR_FORWARD_SLASH # n @ suf)))"
      proof (cases ds)
        case Nil
        then show ?thesis using False D by simp
      next
        case (Cons e es)
        then show ?thesis using D by simp
      qed
      then have "well_formed (D @ CHAR_FORWARD_SLASH # n @ suf) \<longleftrightarrow> suf = []"
        using l D unfolding well_formed_def by simp
      then show ?thesis
        using f False unfolding dir by simp
    qed
  qed
qed

text \<open>
  C8. A descriptor is built from every path string: \<open>new_ParsedFile\<close> is a total function, and a
  string without a dot gets the empty extension. The full path of the descriptor built from
  \<open>p\<close> is \<open>p\<close> again exactly when \<open>p\<close> is well formed, so \<open>path.format\<close> after \<open>path.parse\<close> is the
  identity on the well-formed paths, and on no other string.
\<close>

theorem descriptor_round_trip:
  "(fullPath (new_ParsedFile p) = p \<longleftrightarrow> well_formed p) \<and>
   (CHAR_DOT \<notin> set p \<longrightarrow> ext (new_ParsedFile p) = [])"
proof -
  have "path_format (path_parse p) = p \<longleftrightarrow> well_formed p"
  proof (cases "set p \<subseteq> {CHAR_FORWARD_SLASH}")
    case True
    show ?thesis
    proof (cases "p = []")
      case True
      then show ?thesis by (simp add: format_parse_cases(1) well_formed_def)
    next
      case False
      then show ?thesis
        using format_parse_cases(2) [OF False True] well_formed_separators [OF False True] by auto
    qed
  next
    case False
    then obtain pre n suf where "p = pre @ n @ suf" "slash_free n" "n \<noteq> []"
        "set suf \<subseteq> {CHAR_FORWARD_SLASH}" "pre = [] \<or> (\<exists>D. pre = D @ [CHAR_FORWARD_SLASH])"
      using last_component [OF False] by blast
    then show ?thesis
      using format_parse_segment [of n suf pre] by simp
  qed
  then show ?thesis
    by (simp add: fullPath_def new_ParsedFile_def parse_no_dot)
qed

text \<open>
  The theorem at \<open>docs/a.b\<close>, which is well formed, and at \<open>docs/README\<close>, which has no dot.
\<close>

theorem descriptor_round_trip_witness:
  "well_formed (js ''docs/a.b'') \<and> fullPath (new_ParsedFile (js ''docs/a.b'')) = js ''docs/a.b'' \<and>
   CHAR_DOT \<notin> set (js ''docs/README'') \<and> ext (new_ParsedFile (js ''docs/README'')) = []"
  using descriptor_round_trip [of "js ''docs/a.b''"] descriptor_round_trip [of "js ''docs/README''"]
  by (simp add: well_formed_def js_def CHAR_FORWARD_SLASH_def CHAR_DOT_def)

end
